theory Spec2Isabelle
  imports Complex_Main
begin

section \<open>JavaScript strings\<close>

definition js_space :: "char \<Rightarrow> bool" where
  "js_space c \<longleftrightarrow> c \<in> set [CHR 0x09, CHR 0x0A, CHR 0x0B, CHR 0x0C, CHR 0x0D, CHR 0x20, CHR 0xA0]"

definition trim :: "string \<Rightarrow> string" where
  "trim s = rev (dropWhile js_space (rev (dropWhile js_space s)))"

definition startsWith :: "string \<Rightarrow> string \<Rightarrow> bool" where
  "startsWith s p \<longleftrightarrow> take (length p) s = p"

definition endsWith :: "string \<Rightarrow> string \<Rightarrow> bool" where
  "endsWith s p \<longleftrightarrow> startsWith (rev s) (rev p)"

fun str_includes :: "string \<Rightarrow> string \<Rightarrow> bool" where
  "str_includes [] p = (p = [])"
| "str_includes (c # cs) p = (startsWith (c # cs) p \<or> str_includes cs p)"

fun indexOf :: "string \<Rightarrow> string \<Rightarrow> nat option" where
  "indexOf [] p = (if p = [] then Some 0 else None)"
| "indexOf (c # cs) p =
     (if startsWith (c # cs) p then Some 0 else map_option Suc (indexOf cs p))"

definition is_digit :: "char \<Rightarrow> bool" where
  "is_digit c \<longleftrightarrow> (48::nat) \<le> of_char c \<and> of_char c \<le> (57::nat)"

definition digit_val :: "char \<Rightarrow> int" where
  "digit_val c = of_char c - 48"

definition dec_value :: "string \<Rightarrow> int" where
  "dec_value ds = foldl (\<lambda>a c. 10 * a + digit_val c) 0 ds"

section \<open>JSON values and \<open>JSON.parse\<close>\<close>

datatype json =
    JNull
  | JBool bool
  | JNum int int
  | JStr string
  | JArr "json list"
  | JObj "(string \<times> json) list"

datatype token =
    TLBrace | TRBrace | TLBrack | TRBrack | TColon | TComma
  | TStr string | TNum int int | TTrue | TFalse | TNull

definition json_ws :: "char \<Rightarrow> bool" where
  "json_ws c \<longleftrightarrow> c \<in> set [CHR 0x20, CHR 0x09, CHR 0x0A, CHR 0x0D]"

definition hexval :: "char \<Rightarrow> nat option" where
  "hexval c =
     (let n = (of_char c :: nat) in
      if 48 \<le> n \<and> n \<le> 57 then Some (n - 48)
      else if 97 \<le> n \<and> n \<le> 102 then Some (n - 87)
      else if 65 \<le> n \<and> n \<le> 70 then Some (n - 55)
      else None)"

definition unescape :: "char \<Rightarrow> char option" where
  "unescape e =
     (if e = CHR 0x22 then Some (CHR 0x22)
      else if e = CHR 0x5C then Some (CHR 0x5C)
      else if e = CHR ''/'' then Some (CHR ''/'')
      else if e = CHR ''b'' then Some (CHR 0x08)
      else if e = CHR ''f'' then Some (CHR 0x0C)
      else if e = CHR ''n'' then Some (CHR 0x0A)
      else if e = CHR ''r'' then Some (CHR 0x0D)
      else if e = CHR ''t'' then Some (CHR 0x09)
      else None)"

definition cons_char :: "char \<Rightarrow> (string \<times> string) option \<Rightarrow> (string \<times> string) option" where
  "cons_char c r = map_option (\<lambda>(s, rest). (c # s, rest)) r"

definition hex4 :: "char \<Rightarrow> char \<Rightarrow> char \<Rightarrow> char \<Rightarrow> char option" where
  "hex4 a b c d =
     (case (hexval a, hexval b, hexval c, hexval d) of
        (Some w, Some x, Some y, Some z) \<Rightarrow> Some (char_of (((w * 16 + x) * 16 + y) * 16 + z))
      | _ \<Rightarrow> None)"

fun lex_string :: "string \<Rightarrow> (string \<times> string) option" where
  "lex_string [] = None"
| "lex_string (c # cs) =
     (if c = CHR 0x22 then Some ([], cs)
      else if c = CHR 0x5C then
        (case cs of
           [] \<Rightarrow> None
         | e # cs1 \<Rightarrow>
             if e = CHR ''u'' then
               (case cs1 of
                  h1 # h2 # h3 # h4 # cs2 \<Rightarrow>
                    (case hex4 h1 h2 h3 h4 of
                       None \<Rightarrow> None
                     | Some u \<Rightarrow> cons_char u (lex_string cs2))
                | _ \<Rightarrow> None)
             else
               (case unescape e of
                  None \<Rightarrow> None
                | Some x \<Rightarrow> cons_char x (lex_string cs1)))
      else if (of_char c :: nat) < 32 then None
      else cons_char c (lex_string cs))"

definition mk_num :: "bool \<Rightarrow> string \<Rightarrow> int \<Rightarrow> token" where
  "mk_num neg ds ex =
     (let st = rev (dropWhile (\<lambda>c. c = CHR ''0'') (rev ds)) in
      if st = [] then TNum 0 0
      else TNum ((if neg then - 1 else 1) * dec_value st)
                (ex + int (length ds - length st)))"

definition lex_exponent :: "string \<Rightarrow> (int \<times> string) option" where
  "lex_exponent cs =
     (case cs of
        [] \<Rightarrow> Some (0, cs)
      | c # r \<Rightarrow>
          if c = CHR ''e'' \<or> c = CHR ''E'' then
            (let (neg, r1) =
                   (case r of
                      [] \<Rightarrow> (False, r)
                    | s # r' \<Rightarrow> if s = CHR ''-'' then (True, r')
                               else if s = CHR ''+'' then (False, r') else (False, r));
                 ds = takeWhile is_digit r1
             in if ds = [] then None
                else Some ((if neg then - 1 else 1) * dec_value ds, dropWhile is_digit r1))
          else Some (0, cs))"

definition lex_fraction :: "string \<Rightarrow> (string \<times> string) option" where
  "lex_fraction cs =
     (case cs of
        [] \<Rightarrow> Some ([], cs)
      | c # r \<Rightarrow>
          if c = CHR ''.'' then
            (let ds = takeWhile is_digit r
             in if ds = [] then None else Some (ds, dropWhile is_digit r))
          else Some ([], cs))"

definition lex_int :: "string \<Rightarrow> (string \<times> string) option" where
  "lex_int cs =
     (case cs of
        [] \<Rightarrow> None
      | d # r \<Rightarrow>
          if \<not> is_digit d then None
          else if d = CHR ''0'' then Some ([d], r)
          else Some (d # takeWhile is_digit r, dropWhile is_digit r))"

definition lex_number :: "string \<Rightarrow> (token \<times> string) option" where
  "lex_number cs =
     (let neg = startsWith cs ''-''; r0 = (if neg then tl cs else cs)
      in case lex_int r0 of
           None \<Rightarrow> None
         | Some (ip, r1) \<Rightarrow>
             (case lex_fraction r1 of
                None \<Rightarrow> None
              | Some (fp, r2) \<Rightarrow>
                  (case lex_exponent r2 of
                     None \<Rightarrow> None
                   | Some (ex, r3) \<Rightarrow>
                       Some (mk_num neg (ip @ fp) (ex - int (length fp)), r3))))"

definition cons_tok :: "token \<Rightarrow> token list option \<Rightarrow> token list option" where
  "cons_tok t r = map_option ((#) t) r"

function tokenize :: "string \<Rightarrow> token list option" where
  "tokenize [] = Some []"
| "tokenize (c # cs) =
     (if json_ws c then tokenize cs
      else if c = CHR ''{'' then cons_tok TLBrace (tokenize cs)
      else if c = CHR ''}'' then cons_tok TRBrace (tokenize cs)
      else if c = CHR ''['' then cons_tok TLBrack (tokenize cs)
      else if c = CHR '']'' then cons_tok TRBrack (tokenize cs)
      else if c = CHR '':'' then cons_tok TColon (tokenize cs)
      else if c = CHR '','' then cons_tok TComma (tokenize cs)
      else if c = CHR 0x22 then
        (case lex_string cs of
           None \<Rightarrow> None
         | Some (s, rest) \<Rightarrow> cons_tok (TStr s) (tokenize rest))
      else if c = CHR ''-'' \<or> is_digit c then
        (case lex_number (c # cs) of
           None \<Rightarrow> None
         | Some (t, rest) \<Rightarrow> cons_tok t (tokenize rest))
      else if startsWith (c # cs) ''true'' then cons_tok TTrue (tokenize (drop 3 cs))
      else if startsWith (c # cs) ''false'' then cons_tok TFalse (tokenize (drop 4 cs))
      else if startsWith (c # cs) ''null'' then cons_tok TNull (tokenize (drop 3 cs))
      else None)"
  by pat_completeness auto
termination
proof (relation "measure length")
  have str: "length r \<le> length cs" if "lex_string cs = Some (s, r)" for cs s r
    using that
  proof (induction cs arbitrary: s r rule: lex_string.induct)
    case 1
    then show ?case by simp
  next
    case (2 c cs)
    then show ?case
      by (fastforce simp: cons_char_def le_Suc_eq
            split: if_splits list.splits option.splits)
  qed
  have frac: "length r \<le> length cs" if "lex_fraction cs = Some (f, r)" for cs f r
    using that length_dropWhile_le [of is_digit]
    by (auto simp: lex_fraction_def Let_def le_Suc_eq split: list.splits if_splits)
  have expo: "length r \<le> length cs" if "lex_exponent cs = Some (x, r)" for cs x r
    using that length_dropWhile_le [of is_digit]
    by (auto simp: lex_exponent_def Let_def le_Suc_eq split: list.splits if_splits prod.splits)
  have intp: "length r < length cs" if "lex_int cs = Some (i, r)" for cs i r
    using that length_dropWhile_le [of is_digit]
    by (auto simp: lex_int_def less_Suc_eq_le split: list.splits if_splits)
  have num: "length r < length cs" if "lex_number cs = Some (t, r)" for cs t r
  proof -
    from that obtain r0 ip r1 fp r2 ex
      where i: "lex_int r0 = Some (ip, r1)" and r0: "length r0 \<le> length cs"
        and f: "lex_fraction r1 = Some (fp, r2)" and e: "lex_exponent r2 = Some (ex, r)"
      by (auto simp: lex_number_def Let_def split: option.splits if_splits)
    from intp [OF i] frac [OF f] expo [OF e] r0 show ?thesis by simp
  qed
  show "wf (measure length)" by simp
  show "\<And>c cs x2 s rest. lex_string cs = Some x2 \<Longrightarrow> (s, rest) = x2 \<Longrightarrow>
          (rest, c # cs) \<in> measure length"
    using str by (fastforce simp: less_Suc_eq_le)
  show "\<And>c cs x2 t rest. lex_number (c # cs) = Some x2 \<Longrightarrow> (t, rest) = x2 \<Longrightarrow>
          (rest, c # cs) \<in> measure length"
    using num by fastforce
qed auto

text \<open>
  The parser proper is a pushdown automaton over the tokens: the stack holds the arrays and
  objects that are still open, the mode says what the grammar allows next.  A key that occurs
  twice keeps its first position and takes the last value; array-index keys come first, in
  ascending order, as in the property order of a JavaScript object.
\<close>

definition is_array_index :: "string \<Rightarrow> bool" where
  "is_array_index k \<longleftrightarrow>
     k \<noteq> [] \<and> list_all is_digit k \<and> (k = ''0'' \<or> hd k \<noteq> CHR ''0'') \<and>
     length k \<le> 10 \<and> dec_value k < 4294967295"

fun insert_index :: "string \<Rightarrow> json \<Rightarrow> (string \<times> json) list \<Rightarrow> (string \<times> json) list" where
  "insert_index k v [] = [(k, v)]"
| "insert_index k v ((k', v') # kvs) =
     (if is_array_index k' \<and> dec_value k' < dec_value k
      then (k', v') # insert_index k v kvs
      else (k, v) # (k', v') # kvs)"

fun update_prop :: "string \<Rightarrow> json \<Rightarrow> (string \<times> json) list \<Rightarrow> (string \<times> json) list" where
  "update_prop k v [] = []"
| "update_prop k v ((k', v') # kvs) =
     (if k' = k then (k, v) # kvs else (k', v') # update_prop k v kvs)"

definition obj_put :: "string \<Rightarrow> json \<Rightarrow> (string \<times> json) list \<Rightarrow> (string \<times> json) list" where
  "obj_put k v kvs =
     (if map_of kvs k \<noteq> None then update_prop k v kvs
      else if is_array_index k then insert_index k v kvs
      else kvs @ [(k, v)])"

datatype frame = FArr "json list" | FObj "(string \<times> json) list" string

datatype pmode = PValue | PValueOrEnd | PKeyOrEnd | PKey | PColon | PAfter | PDone json

fun attach :: "json \<Rightarrow> frame list \<Rightarrow> pmode \<times> frame list" where
  "attach v [] = (PDone v, [])"
| "attach v (FArr xs # st) = (PAfter, FArr (xs @ [v]) # st)"
| "attach v (FObj kvs k # st) = (PAfter, FObj (obj_put k v kvs) k # st)"

fun value_token :: "token \<Rightarrow> frame list \<Rightarrow> (pmode \<times> frame list) option" where
  "value_token (TStr s) st = Some (attach (JStr s) st)"
| "value_token (TNum m e) st = Some (attach (JNum m e) st)"
| "value_token TTrue st = Some (attach (JBool True) st)"
| "value_token TFalse st = Some (attach (JBool False) st)"
| "value_token TNull st = Some (attach JNull st)"
| "value_token TLBrack st = Some (PValueOrEnd, FArr [] # st)"
| "value_token TLBrace st = Some (PKeyOrEnd, FObj [] [] # st)"
| "value_token _ st = None"

fun key_token :: "token \<Rightarrow> frame list \<Rightarrow> (pmode \<times> frame list) option" where
  "key_token (TStr k) (FObj kvs _ # st) = Some (PColon, FObj kvs k # st)"
| "key_token _ _ = None"

fun close_token :: "token \<Rightarrow> frame list \<Rightarrow> (pmode \<times> frame list) option" where
  "close_token TRBrack (FArr xs # st) = Some (attach (JArr xs) st)"
| "close_token TRBrace (FObj kvs _ # st) = Some (attach (JObj kvs) st)"
| "close_token _ _ = None"

fun after_token :: "token \<Rightarrow> frame list \<Rightarrow> (pmode \<times> frame list) option" where
  "after_token TComma (FArr xs # st) = Some (PValue, FArr xs # st)"
| "after_token TComma (FObj kvs k # st) = Some (PKey, FObj kvs k # st)"
| "after_token t st = close_token t st"

fun pstep :: "pmode \<Rightarrow> frame list \<Rightarrow> token \<Rightarrow> (pmode \<times> frame list) option" where
  "pstep PValue st t = value_token t st"
| "pstep PValueOrEnd st t = (if t = TRBrack then close_token t st else value_token t st)"
| "pstep PKeyOrEnd st t = (if t = TRBrace then close_token t st else key_token t st)"
| "pstep PKey st t = key_token t st"
| "pstep PColon st t = (if t = TColon then Some (PValue, st) else None)"
| "pstep PAfter st t = after_token t st"
| "pstep (PDone v) st t = None"

fun prun :: "pmode \<Rightarrow> frame list \<Rightarrow> token list \<Rightarrow> json option" where
  "prun m st [] = (case m of PDone v \<Rightarrow> Some v | _ \<Rightarrow> None)"
| "prun m st (t # ts) =
     (case pstep m st t of None \<Rightarrow> None | Some (m', st') \<Rightarrow> prun m' st' ts)"

text \<open>\<open>JSON.parse(text)\<close>: \<open>None\<close> is the \<open>SyntaxError\<close> it throws.\<close>

definition JSON_parse :: "string \<Rightarrow> json option" where
  "JSON_parse text = (case tokenize text of None \<Rightarrow> None | Some ts \<Rightarrow> prun PValue [] ts)"


section \<open>\<open>JSON.stringify\<close> and the conversions of JavaScript values\<close>

function digits_of :: "nat \<Rightarrow> string" where
  "digits_of n =
     (if n < 10 then [char_of (48 + n)]
      else digits_of (n div 10) @ [char_of (48 + n mod 10)])"
  by pat_completeness auto
termination
  by (relation "measure id") auto

text \<open>
  \<open>Number::toString\<close> on the decimal \<open>m * 10 ^ e\<close>, where \<open>m\<close> has no trailing zero:
  plain digits up to 21 integer digits, a leading \<open>0.\<close> down to \<open>1e-6\<close>, exponent notation
  beyond.
\<close>

definition number_to_string :: "int \<Rightarrow> int \<Rightarrow> string" where
  "number_to_string m e =
     (if m = 0 then ''0''
      else
        (let ds = digits_of (nat \<bar>m\<bar>);
             k = int (length ds);
             n = k + e;
             body =
               (if k \<le> n \<and> n \<le> 21 then ds @ replicate (nat (n - k)) (CHR ''0'')
                else if 0 < n \<and> n \<le> 21 then take (nat n) ds @ ''.'' @ drop (nat n) ds
                else if - 6 < n \<and> n \<le> 0 then ''0.'' @ replicate (nat (- n)) (CHR ''0'') @ ds
                else
                  (let es = (if n - 1 < 0 then ''-'' else ''+'') @ digits_of (nat \<bar>n - 1\<bar>)
                   in if k = 1 then ds @ ''e'' @ es
                      else take 1 ds @ ''.'' @ drop 1 ds @ ''e'' @ es))
         in (if m < 0 then ''-'' else []) @ body))"

definition hex_digit :: "nat \<Rightarrow> char" where
  "hex_digit n = (if n < 10 then char_of (48 + n) else char_of (87 + n))"

definition quote_char :: "char \<Rightarrow> string" where
  "quote_char c =
     (if c = CHR 0x22 then [CHR 0x5C, CHR 0x22]
      else if c = CHR 0x5C then [CHR 0x5C, CHR 0x5C]
      else if c = CHR 0x08 then [CHR 0x5C, CHR ''b'']
      else if c = CHR 0x0C then [CHR 0x5C, CHR ''f'']
      else if c = CHR 0x0A then [CHR 0x5C, CHR ''n'']
      else if c = CHR 0x0D then [CHR 0x5C, CHR ''r'']
      else if c = CHR 0x09 then [CHR 0x5C, CHR ''t'']
      else if (of_char c :: nat) < 32 then
        [CHR 0x5C, CHR ''u'', CHR ''0'', CHR ''0'',
         hex_digit (of_char c div 16), hex_digit (of_char c mod 16)]
      else [c])"

definition quote_string :: "string \<Rightarrow> string" where
  "quote_string s = [CHR 0x22] @ concat (map quote_char s) @ [CHR 0x22]"

fun join :: "string \<Rightarrow> string list \<Rightarrow> string" where
  "join sep [] = []"
| "join sep [x] = x"
| "join sep (x # y # ys) = x @ sep @ join sep (y # ys)"

fun JSON_stringify :: "json \<Rightarrow> string" where
  "JSON_stringify JNull = ''null''"
| "JSON_stringify (JBool b) = (if b then ''true'' else ''false'')"
| "JSON_stringify (JNum m e) = number_to_string m e"
| "JSON_stringify (JStr s) = quote_string s"
| "JSON_stringify (JArr xs) = ''['' @ join '','' (map JSON_stringify xs) @ '']''"
| "JSON_stringify (JObj kvs) =
     ''{'' @ join '','' (map (\<lambda>kv. quote_string (fst kv) @ '':'' @ JSON_stringify (snd kv)) kvs)
       @ ''}''"

text \<open>
  A JavaScript value that is not \<open>undefined\<close> is a \<^typ>\<open>json\<close>; \<open>None\<close> of
  \<^typ>\<open>json option\<close> is \<open>undefined\<close>.  Reading a property of \<open>null\<close> or \<open>undefined\<close> throws
  a \<open>TypeError\<close>: the callers below test \<open>nullish\<close> first and take their \<open>catch\<close> branch.
\<close>

definition truthy :: "json \<Rightarrow> bool" where
  "truthy v =
     (case v of
        JNull \<Rightarrow> False
      | JBool b \<Rightarrow> b
      | JNum m e \<Rightarrow> m \<noteq> 0
      | JStr s \<Rightarrow> s \<noteq> []
      | JArr xs \<Rightarrow> True
      | JObj kvs \<Rightarrow> True)"

definition truthy_opt :: "json option \<Rightarrow> bool" where
  "truthy_opt v = (case v of None \<Rightarrow> False | Some x \<Rightarrow> truthy x)"

definition get_prop :: "json \<Rightarrow> string \<Rightarrow> json option" where
  "get_prop v k = (case v of JObj kvs \<Rightarrow> map_of kvs k | _ \<Rightarrow> None)"

definition js_or :: "json option \<Rightarrow> json option \<Rightarrow> json option" where
  "js_or a b = (if truthy_opt a then a else b)"

definition or_default :: "json option \<Rightarrow> json \<Rightarrow> json" where
  "or_default a d = (case a of None \<Rightarrow> d | Some x \<Rightarrow> if truthy x then x else d)"

definition isArray :: "json option \<Rightarrow> bool" where
  "isArray v = (case v of Some (JArr xs) \<Rightarrow> True | _ \<Rightarrow> False)"

definition items :: "json option \<Rightarrow> json list" where
  "items v = (case v of Some (JArr xs) \<Rightarrow> xs | _ \<Rightarrow> [])"

definition is_primitive :: "json \<Rightarrow> bool" where
  "is_primitive v = (case v of JArr xs \<Rightarrow> False | JObj kvs \<Rightarrow> False | _ \<Rightarrow> True)"

text \<open>
  A \<open>Set\<close> keeps the first occurrence of a value; two primitives are the same value when they
  are equal, an array or object is only the same as itself, and the arrays and objects that
  \<open>JSON.parse\<close> builds are all distinct.
\<close>

definition set_add :: "json list \<Rightarrow> json \<Rightarrow> json list" where
  "set_add acc v = (if is_primitive v \<and> v \<in> set acc then acc else acc @ [v])"

definition new_Set :: "json list \<Rightarrow> json list" where
  "new_Set vs = foldl set_add [] vs"

text \<open>
  \<open>ToString\<close>: an array joins its elements with commas (\<open>null\<close> as the empty string), an
  object is \<open>[object Object]\<close> unless it has an own property \<open>toString\<close>, which a parsed
  object can only hold as a non-callable value: then the conversion throws (\<open>None\<close>).
\<close>

fun js_toString :: "json \<Rightarrow> string option" where
  "js_toString JNull = Some ''null''"
| "js_toString (JBool b) = Some (if b then ''true'' else ''false'')"
| "js_toString (JNum m e) = Some (number_to_string m e)"
| "js_toString (JStr s) = Some s"
| "js_toString (JArr xs) =
     (let ss = map (\<lambda>x. if x = JNull then Some [] else js_toString x) xs
      in if None \<in> set ss then None else Some (join '','' (map the ss)))"
| "js_toString (JObj kvs) =
     (if map_of kvs ''toString'' \<noteq> None then None else Some ''[object Object]'')"

definition to_primitive :: "json \<Rightarrow> json option" where
  "to_primitive v = (if is_primitive v then Some v else map_option JStr (js_toString v))"

function norm_num :: "int \<Rightarrow> int \<Rightarrow> json" where
  "norm_num m e =
     (if m = 0 then JNum 0 0
      else if m mod 10 = 0 then norm_num (m div 10) (e + 1)
      else JNum m e)"
  by pat_completeness auto
termination
  by (relation "measure (\<lambda>(m, e). nat \<bar>m\<bar>)") auto

definition to_number :: "json \<Rightarrow> int \<times> int" where
  "to_number v =
     (case v of JNum m e \<Rightarrow> (m, e) | JBool b \<Rightarrow> (if b then (1, 0) else (0, 0)) | _ \<Rightarrow> (0, 0))"

definition num_add :: "int \<times> int \<Rightarrow> int \<times> int \<Rightarrow> json" where
  "num_add a b =
     (let e = min (snd a) (snd b)
      in norm_num (fst a * 10 ^ nat (snd a - e) + fst b * 10 ^ nat (snd b - e)) e)"

text \<open>
  \<open>a + b\<close> where \<open>a\<close> is a number or a string: concatenation as soon as one side is a
  string after \<open>ToPrimitive\<close>, addition of numbers otherwise.
\<close>

definition js_plus :: "json \<Rightarrow> json \<Rightarrow> json option" where
  "js_plus a b =
     (case to_primitive b of
        None \<Rightarrow> None
      | Some pb \<Rightarrow>
          (case (a, pb) of
             (JStr x, _) \<Rightarrow> Some (JStr (x @ the (js_toString pb)))
           | (_, JStr y) \<Rightarrow> Some (JStr (the (js_toString a) @ y))
           | _ \<Rightarrow> Some (num_add (to_number a) (to_number pb))))"


section \<open>Dates: \<open>calculateTimeRange\<close>\<close>

text \<open>
  \<open>new Date(v)\<close> for a truthy \<open>v\<close>.  What \<open>Date.parse\<close> accepts is left to the platform, so
  it is a parameter \<open>dp\<close>: the time value in milliseconds, or \<open>None\<close> for an invalid date.
  The outer \<open>None\<close> of \<open>new_Date\<close> is the \<open>TypeError\<close> of a value without a primitive.
\<close>

definition time_clip :: "int \<times> int \<Rightarrow> int option" where
  "time_clip n =
     (let m = fst n; e = snd n in
      if 0 \<le> e then
        (if \<bar>m\<bar> * 10 ^ nat e > 8640000000000000 then None else Some (m * 10 ^ nat e))
      else
        (if \<bar>m\<bar> > 8640000000000000 * 10 ^ nat (- e) then None
         else Some (sgn m * (\<bar>m\<bar> div 10 ^ nat (- e)))))"

definition new_Date :: "(string \<Rightarrow> int option) \<Rightarrow> json \<Rightarrow> int option option" where
  "new_Date dp v =
     (case to_primitive v of
        None \<Rightarrow> None
      | Some (JStr s) \<Rightarrow> Some (dp s)
      | Some p \<Rightarrow> Some (time_clip (to_number p)))"

type_synonym time_range = "int option \<times> int option"

definition earlier :: "int option \<Rightarrow> int \<Rightarrow> int option" where
  "earlier cur t = (case cur of None \<Rightarrow> Some t | Some c \<Rightarrow> if t < c then Some t else Some c)"

definition later :: "int option \<Rightarrow> int \<Rightarrow> int option" where
  "later cur t = (case cur of None \<Rightarrow> Some t | Some c \<Rightarrow> if t > c then Some t else Some c)"

definition time_item :: "(string \<Rightarrow> int option) \<Rightarrow> time_range option \<Rightarrow> json \<Rightarrow> time_range option" where
  "time_item dp acc item =
     (case acc of
        None \<Rightarrow> None
      | Some (earliestStart, latestEnd) \<Rightarrow>
          if item = JNull then None
          else
            (case (if truthy_opt (get_prop item ''startTime'')
                   then new_Date dp (the (get_prop item ''startTime'')) else Some None) of
               None \<Rightarrow> None
             | Some startTime \<Rightarrow>
                 (case (if truthy_opt (get_prop item ''endTime'')
                        then new_Date dp (the (get_prop item ''endTime'')) else Some None) of
                    None \<Rightarrow> None
                  | Some endTime \<Rightarrow>
                      Some (case startTime of None \<Rightarrow> earliestStart
                            | Some t \<Rightarrow> earlier earliestStart t,
                            case endTime of None \<Rightarrow> latestEnd
                            | Some t \<Rightarrow> later latestEnd t))))"

definition calculateTimeRange :: "(string \<Rightarrow> int option) \<Rightarrow> json list \<Rightarrow> time_range option" where
  "calculateTimeRange dp schedule = foldl (time_item dp) (Some (None, None)) schedule"

section \<open>Partial-record recovery: \<open>extractPartialScheduleData\<close>\<close>

definition json_starter :: "char \<Rightarrow> bool" where
  "json_starter c \<longleftrightarrow> c = CHR ''{'' \<or> c = CHR ''['' \<or> c = CHR 0x22"

definition json_ender :: "char \<Rightarrow> bool" where
  "json_ender c \<longleftrightarrow> c = CHR ''}'' \<or> c = CHR '']'' \<or> c = CHR 0x22"

text \<open>
  The two \<open>while\<close> loops that open \<open>combineMultipleResponses\<close> and
  \<open>extractPartialScheduleData\<close>: after \<open>trim\<close>, drop characters from the front until a JSON
  starter, then from the back until a JSON ender.
\<close>

fun strip_leading :: "string \<Rightarrow> string" where
  "strip_leading [] = []"
| "strip_leading (c # cs) = (if json_starter c then c # cs else strip_leading cs)"

fun strip_trailing_rev :: "string \<Rightarrow> string" where
  "strip_trailing_rev [] = []"
| "strip_trailing_rev (c # cs) = (if json_ender c then c # cs else strip_trailing_rev cs)"

definition strip_trailing :: "string \<Rightarrow> string" where
  "strip_trailing s = rev (strip_trailing_rev (rev s))"

definition cleanResponse :: "string \<Rightarrow> string" where
  "cleanResponse response = strip_trailing (strip_leading (trim response))"

text \<open>The brace-matching scan, one loop iteration per character.\<close>

record scan_state =
  currentObject :: string
  braceCount :: int
  inString :: bool
  escapeNext :: bool
  sessionObjects :: "string list"

definition scan_init :: scan_state where
  "scan_init =
     \<lparr>currentObject = [], braceCount = 0, inString = False, escapeNext = False,
      sessionObjects = []\<rparr>"

definition scan_brace :: "char \<Rightarrow> scan_state \<Rightarrow> scan_state" where
  "scan_brace c st =
     (if c = CHR ''{'' then
        (if braceCount st = 0 then st\<lparr>currentObject := [], braceCount := 1\<rparr>
         else st\<lparr>braceCount := braceCount st + 1\<rparr>)
      else if c = CHR ''}'' then
        (if braceCount st - 1 = 0 then
           st\<lparr>braceCount := 0, currentObject := [],
              sessionObjects :=
                (if trim (currentObject st @ [c]) \<noteq> []
                 then sessionObjects st @ [trim (currentObject st @ [c])]
                 else sessionObjects st)\<rparr>
         else st\<lparr>braceCount := braceCount st - 1\<rparr>)
      else st)"

definition scan_step :: "scan_state \<Rightarrow> char \<Rightarrow> scan_state" where
  "scan_step st c =
     (if escapeNext st then st\<lparr>escapeNext := False\<rparr>
      else if c = CHR 0x5C then st\<lparr>escapeNext := True\<rparr>
      else
        (let st1 = (if c = CHR 0x22 then st\<lparr>inString := \<not> inString st\<rparr> else st);
             st2 = (if \<not> inString st1 then scan_brace c st1 else st1)
         in if braceCount st2 > 0 then st2\<lparr>currentObject := currentObject st2 @ [c]\<rparr>
            else st2))"

definition scan_objects :: "string \<Rightarrow> string list" where
  "scan_objects cleanedResponse = sessionObjects (foldl scan_step scan_init cleanedResponse)"

text \<open>\<open>str.replace(/,\s*}/g, '}')\<close> and \<open>str.replace(/,\s*$/g, '')\<close>.\<close>

function replace_comma_brace :: "string \<Rightarrow> string" where
  "replace_comma_brace [] = []"
| "replace_comma_brace (c # cs) =
     (if c = CHR '','' \<and> startsWith (dropWhile js_space cs) ''}''
      then CHR ''}'' # replace_comma_brace (tl (dropWhile js_space cs))
      else c # replace_comma_brace cs)"
  by pat_completeness auto
termination
proof (relation "measure length")
  show "wf (measure length)" by simp
  show "\<And>c cs. c = CHR '','' \<and> startsWith (dropWhile js_space cs) ''}'' \<Longrightarrow>
          (tl (dropWhile js_space cs), c # cs) \<in> measure length"
    by (simp add: less_Suc_eq_le le_diff_conv le_SucI length_dropWhile_le)
  show "\<And>c cs. \<not> (c = CHR '','' \<and> startsWith (dropWhile js_space cs) ''}'') \<Longrightarrow>
          (cs, c # cs) \<in> measure length"
    by simp
qed

definition strip_trailing_comma :: "string \<Rightarrow> string" where
  "strip_trailing_comma s =
     (let r = dropWhile js_space (rev s)
      in if startsWith r '','' then rev (tl r) else s)"

text \<open>
  All matches of \<open>/\{[^}]*"sessionName"[^}]*\}/g\<close>: a match opens at a \<open>{\<close>, ends at the first
  \<open>}\<close> after it and has the quoted key in between; the search goes on behind the match.
\<close>

definition quoted_sessionName :: string where
  "quoted_sessionName = [CHR 0x22] @ ''sessionName'' @ [CHR 0x22]"

function aggressive_matches :: "string \<Rightarrow> string list" where
  "aggressive_matches [] = []"
| "aggressive_matches (c # cs) =
     (if c = CHR ''{'' \<and> dropWhile (\<lambda>x. x \<noteq> CHR ''}'') cs \<noteq> [] \<and>
         str_includes (takeWhile (\<lambda>x. x \<noteq> CHR ''}'') cs) quoted_sessionName
      then (c # takeWhile (\<lambda>x. x \<noteq> CHR ''}'') cs @ ''}'')
             # aggressive_matches (tl (dropWhile (\<lambda>x. x \<noteq> CHR ''}'') cs))
      else aggressive_matches cs)"
  by pat_completeness auto
termination
proof (relation "measure length")
  show "wf (measure length)" by simp
  show "\<And>c cs. c = CHR ''{'' \<and> dropWhile (\<lambda>x. x \<noteq> CHR ''}'') cs \<noteq> [] \<and>
          str_includes (takeWhile (\<lambda>x. x \<noteq> CHR ''}'') cs) quoted_sessionName \<Longrightarrow>
          (tl (dropWhile (\<lambda>x. x \<noteq> CHR ''}'') cs), c # cs) \<in> measure length"
    by (simp add: less_Suc_eq_le le_diff_conv le_SucI length_dropWhile_le)
  show "\<And>c cs. \<not> (c = CHR ''{'' \<and> dropWhile (\<lambda>x. x \<noteq> CHR ''}'') cs \<noteq> [] \<and>
          str_includes (takeWhile (\<lambda>x. x \<noteq> CHR ''}'') cs) quoted_sessionName) \<Longrightarrow>
          (cs, c # cs) \<in> measure length"
    by simp
qed

text \<open>
  The validation of one parsed candidate: kept only with a truthy \<open>sessionName\<close> and a truthy
  \<open>location\<close>, every other field filled with its fallback.
\<close>

definition completeSession :: "json \<Rightarrow> json option" where
  "completeSession session =
     (case (get_prop session ''sessionName'', get_prop session ''location'') of
        (Some name, Some loc) \<Rightarrow>
          if truthy name \<and> truthy loc then
            Some (JObj
              [(''sessionName'', name),
               (''location'', loc),
               (''speakers'', or_default (get_prop session ''speakers'') (JArr [JStr ''Speaker TBD''])),
               (''startTime'', or_default (get_prop session ''startTime'') JNull),
               (''endTime'', or_default (get_prop session ''endTime'') JNull),
               (''format'', or_default (get_prop session ''format'') (JStr ''Session'')),
               (''focus'', or_default (get_prop session ''focus'') (JStr ''General'')),
               (''sessionAbstract'',
                  or_default (js_or (get_prop session ''sessionAbstract'') (get_prop session ''abstract''))
                    (JStr ''Session details not available due to truncation''))])
          else None
      | _ \<Rightarrow> None)"

text \<open>
  One iteration of either candidate loop, on the repaired candidate text.  A text that does not
  parse, and a parsed \<open>null\<close> (whose property access throws), are caught and skipped.
\<close>

definition add_candidate :: "json list \<times> json list \<Rightarrow> string \<Rightarrow> json list \<times> json list" where
  "add_candidate acc str =
     (case JSON_parse str of
        None \<Rightarrow> acc
      | Some session \<Rightarrow>
          if session = JNull then acc
          else
            (case completeSession session of
               None \<Rightarrow> acc
             | Some slot \<Rightarrow>
                 (fst acc @ [slot], set_add (snd acc) (the (get_prop session ''location'')))))"

definition repair_candidate :: "string \<Rightarrow> string" where
  "repair_candidate sessionStr = strip_trailing_comma (replace_comma_brace sessionStr)"

definition repair_aggressive :: "string \<Rightarrow> string" where
  "repair_aggressive sessionStr =
     replace_comma_brace (if endsWith sessionStr ''}'' then sessionStr else sessionStr @ ''}'')"

record schedule_data =
  schedule :: "json list"
  locations :: "json list"
  timeRange :: time_range

definition recovered_sessions :: "string \<Rightarrow> json list \<times> json list" where
  "recovered_sessions cleanedResponse =
     (let found = foldl add_candidate ([], []) (map repair_candidate (scan_objects cleanedResponse))
      in if fst found = []
         then foldl add_candidate found (map repair_aggressive (aggressive_matches cleanedResponse))
         else found)"

definition extractPartialScheduleData :: "(string \<Rightarrow> int option) \<Rightarrow> string \<Rightarrow> schedule_data" where
  "extractPartialScheduleData dp response =
     (let found = recovered_sessions (cleanResponse response)
      in case calculateTimeRange dp (fst found) of
           None \<Rightarrow> \<lparr>schedule = [], locations = [], timeRange = (None, None)\<rparr>
         | Some tr \<Rightarrow> \<lparr>schedule = fst found, locations = snd found, timeRange = tr\<rparr>)"


section \<open>\<open>parseAgentResponse\<close>\<close>

record proposal = schedule_data +
  totalSessions :: nat
  noteText :: string
  rawResponse :: "string option"
  isPartial :: bool

datatype agent_result =
    Success proposal
  | Failure string string "string option"

text \<open>
  \<open>Failure error rawResponse note\<close> is the object with \<open>success: false\<close>.  In a \<open>Success\<close> the
  field \<open>isPartial\<close> is \<open>True\<close> where the source sets \<open>isPartial: true\<close> and \<open>False\<close> where it
  leaves the property out.
\<close>

definition locations_of :: "json list \<Rightarrow> json list option" where
  "locations_of sched =
     (if JNull \<in> set sched then None
      else Some (new_Set (filter truthy
                  (concat (map (\<lambda>s. case get_prop s ''location'' of None \<Rightarrow> [] | Some l \<Rightarrow> [l])
                     sched)))))"

text \<open>
  The body of a \<open>try\<close> that has parsed \<open>scheduleData\<close>: the schedule is the parsed array (or the
  single parsed value), the locations and the time range are computed from it.  \<open>None\<close> is an
  exception on the way, which the enclosing \<open>catch\<close> turns into partial recovery.
\<close>

definition parsed_proposal :: "(string \<Rightarrow> int option) \<Rightarrow> json list \<Rightarrow> string \<Rightarrow> agent_result option" where
  "parsed_proposal dp sched nt =
     (case locations_of sched of
        None \<Rightarrow> None
      | Some locs \<Rightarrow>
          (case calculateTimeRange dp sched of
             None \<Rightarrow> None
           | Some tr \<Rightarrow>
               Some (Success
                 \<lparr>schedule = sched, locations = locs, timeRange = tr,
                  totalSessions = length sched, noteText = nt, rawResponse = None,
                  isPartial = False\<rparr>)))"

definition as_schedule :: "json \<Rightarrow> json list" where
  "as_schedule scheduleData = (case scheduleData of JArr xs \<Rightarrow> xs | _ \<Rightarrow> [scheduleData])"

text \<open>The partial-recovery branch that follows every failed parse.\<close>

definition partial_result ::
  "(string \<Rightarrow> int option) \<Rightarrow> string \<Rightarrow> string \<Rightarrow> string \<Rightarrow> string \<Rightarrow> string \<Rightarrow> string option
     \<Rightarrow> agent_result" where
  "partial_result dp content agentResponse okNote err raw failNote =
     (let partialData = extractPartialScheduleData dp content
      in if length (schedule partialData) > 0 then
           Success
             \<lparr>schedule = schedule partialData, locations = locations partialData,
              timeRange = timeRange partialData,
              totalSessions = length (schedule partialData), noteText = okNote,
              rawResponse = Some agentResponse, isPartial = True\<rparr>
         else Failure err raw failNote)"

definition looks_like_json :: "string \<Rightarrow> bool" where
  "looks_like_json content \<longleftrightarrow> startsWith (trim content) ''['' \<or> startsWith (trim content) ''{''"

definition first_element_null :: "json \<Rightarrow> bool" where
  "first_element_null scheduleData =
     (case scheduleData of JArr (x # xs) \<Rightarrow> x = JNull | _ \<Rightarrow> False)"

text \<open>Lines 1438 to 1524: the content taken out of a wrapper that parsed.\<close>

definition wrapped_content :: "(string \<Rightarrow> int option) \<Rightarrow> string \<Rightarrow> string \<Rightarrow> agent_result" where
  "wrapped_content dp agentResponse extractedContent =
     (if looks_like_json extractedContent then
        (case (case JSON_parse extractedContent of
                 None \<Rightarrow> None
               | Some scheduleData \<Rightarrow>
                   if first_element_null scheduleData then None
                   else parsed_proposal dp (as_schedule scheduleData)
                          ''Response may be truncated due to platform limits'') of
           Some r \<Rightarrow> r
         | None \<Rightarrow>
             partial_result dp extractedContent agentResponse
               ''Response was truncated - showing partial data. Some sessions may be incomplete.''
               ''Invalid JSON format in extracted value and no partial data could be extracted''
               (take 500 extractedContent @ ''...'')
               (Some ''Response appears to be truncated and could not be parsed''))
      else
        partial_result dp extractedContent agentResponse
          ''Response was truncated - showing partial data extracted from response.''
          ''Extracted content is not valid JSON and no partial data could be extracted''
          (take 500 extractedContent @ ''...'')
          (Some ''Response may be truncated''))"

text \<open>
  Lines 1424 to 1532, the \<open>try\<close> around the wrapper: \<open>None\<close> when the wrapper does not parse, or
  when its \<open>value\<close> is truthy but not a string (\<open>substring\<close> is then not a function); both end in
  the \<open>catch\<close> of line 1533.
\<close>

definition wrapper_try :: "(string \<Rightarrow> int option) \<Rightarrow> string \<Rightarrow> agent_result option" where
  "wrapper_try dp agentResponse =
     (case JSON_parse agentResponse of
        None \<Rightarrow> None
      | Some parsedResponse \<Rightarrow>
          if parsedResponse = JNull then None
          else if get_prop parsedResponse ''type'' = Some (JStr ''Text'') \<and>
                  truthy_opt (get_prop parsedResponse ''value'') then
            (case get_prop parsedResponse ''value'' of
               Some (JStr extractedContent) \<Rightarrow> Some (wrapped_content dp agentResponse extractedContent)
             | _ \<Rightarrow> None)
          else Some (Failure ''Response wrapper format is not as expected'' agentResponse None))"

definition value_key :: string where
  "value_key = [CHR 0x22] @ ''value'' @ [CHR 0x22] @ '':''"

definition type_text :: string where
  "type_text = [CHR 0x22] @ ''type'' @ [CHR 0x22] @ '':'' @ [CHR 0x22] @ ''Text'' @ [CHR 0x22]"

definition manual_ws :: "char \<Rightarrow> bool" where
  "manual_ws c \<longleftrightarrow> c = CHR '' '' \<or> c = CHR 0x0A \<or> c = CHR 0x0D \<or> c = CHR 0x09"

text \<open>
  Lines 1542 to 1561: the text behind the first \<open>"value":\<close>, without the white space and the
  one opening quote that may follow it.
\<close>

definition manual_extract :: "string \<Rightarrow> string option" where
  "manual_extract agentResponse =
     (case indexOf agentResponse value_key of
        None \<Rightarrow> None
      | Some valueStartIndex \<Rightarrow>
          (let rest = dropWhile manual_ws (drop (valueStartIndex + 8) agentResponse)
           in Some (if startsWith rest [CHR 0x22] then tl rest else rest)))"

text \<open>Lines 1533 to 1647, the \<open>catch\<close> of the wrapper.\<close>

definition manual_fallback :: "(string \<Rightarrow> int option) \<Rightarrow> string \<Rightarrow> agent_result" where
  "manual_fallback dp agentResponse =
     (case manual_extract agentResponse of
        None \<Rightarrow> Failure ''No value field found in response wrapper'' agentResponse None
      | Some extractedContent \<Rightarrow>
          if looks_like_json extractedContent then
            (case (case JSON_parse extractedContent of
                     None \<Rightarrow> None
                   | Some scheduleData \<Rightarrow>
                       parsed_proposal dp (as_schedule scheduleData)
                         ''Response may be truncated due to platform limits (parsed manually)'') of
               Some r \<Rightarrow> r
             | None \<Rightarrow>
                 partial_result dp extractedContent agentResponse
                   ''Response was truncated - showing partial data (parsed manually).''
                   ''Manual extraction failed - content is not valid JSON and no partial data could be extracted''
                   (take 500 extractedContent @ ''...'')
                   (Some ''Response appears to be truncated and could not be parsed''))
          else
            partial_result dp extractedContent agentResponse
              ''Response was truncated - showing partial data extracted manually.''
              ''Manual extraction failed - content is not valid JSON and no partial data could be extracted''
              (take 500 extractedContent @ ''...'')
              (Some ''Response may be truncated''))"

text \<open>
  Lines 1652 to 1706: the whole response parsed as JSON.  The \<open>try\<close> returns a failure of its
  own when the parsed value is not a non-empty array whose first element has a truthy
  \<open>sessionName\<close>; reading that property of a \<open>null\<close> first element throws.
\<close>

definition whole_try :: "(string \<Rightarrow> int option) \<Rightarrow> string \<Rightarrow> agent_result option" where
  "whole_try dp agentResponse =
     (case JSON_parse agentResponse of
        None \<Rightarrow> None
      | Some scheduleData \<Rightarrow>
          if first_element_null scheduleData then None
          else if (case scheduleData of
                     JArr (x # xs) \<Rightarrow> truthy_opt (get_prop x ''sessionName'')
                   | _ \<Rightarrow> False)
          then parsed_proposal dp (as_schedule scheduleData) ''Schedule data parsed successfully''
          else Some (Failure ''Response does not contain valid schedule data''
                       (take 200 agentResponse @ ''...'')
                       (Some ''Response format not recognized'')))"

definition parseAgentResponse :: "(string \<Rightarrow> int option) \<Rightarrow> string \<Rightarrow> agent_result" where
  "parseAgentResponse dp agentResponse =
     (if agentResponse = [] then
        Failure ''No response received'' ''No response'' (Some ''No response received from agent'')
      else if str_includes agentResponse type_text \<and> str_includes agentResponse value_key then
        (case wrapper_try dp agentResponse of
           Some r \<Rightarrow> r
         | None \<Rightarrow> manual_fallback dp agentResponse)
      else
        (case whole_try dp agentResponse of
           Some r \<Rightarrow> r
         | None \<Rightarrow>
             partial_result dp agentResponse agentResponse
               ''Response was truncated - showing partial data. Some sessions may be incomplete.''
               ''Failed to parse response and no partial data could be extracted''
               (take 500 agentResponse @ ''...'')
               (Some ''Response appears to be truncated and could not be parsed'')))"


section \<open>Fragment combination: \<open>combineMultipleResponses\<close>\<close>

text \<open>
  \<open>extractMultipleJsonObjects\<close> and \<open>extractMultipleJsonArrays\<close> are the same loop, on braces
  and on brackets.  \<open>i\<close> is the loop index, \<open>n\<close> the bracket count, \<open>start\<close> the index where the
  open candidate began (\<open>None\<close> for \<open>-1\<close>), \<open>ins\<close> and \<open>esc\<close> the flags \<open>inString\<close> and
  \<open>escapeNext\<close>.  A closed candidate is kept when \<open>JSON.parse\<close> accepts it.
\<close>

fun extract_balanced ::
  "char \<Rightarrow> char \<Rightarrow> string \<Rightarrow> nat \<Rightarrow> int \<Rightarrow> nat option \<Rightarrow> bool \<Rightarrow> bool \<Rightarrow> string \<Rightarrow> string list" where
  "extract_balanced opn cls response i n start ins esc [] = []"
| "extract_balanced opn cls response i n start ins esc (c # cs) =
     (if esc then extract_balanced opn cls response (i + 1) n start ins False cs
      else if c = CHR 0x5C then extract_balanced opn cls response (i + 1) n start ins True cs
      else
        (let ins' = (if c = CHR 0x22 then \<not> ins else ins) in
         if \<not> ins' \<and> c = opn then
           extract_balanced opn cls response (i + 1) (n + 1)
             (if n = 0 then Some i else start) ins' False cs
         else if \<not> ins' \<and> c = cls then
           (if n - 1 = 0 \<and> start \<noteq> None then
              (let candidate = take (i + 1 - the start) (drop (the start) response)
               in (if JSON_parse candidate \<noteq> None then [candidate] else [])
                    @ extract_balanced opn cls response (i + 1) 0 None ins' False cs)
            else extract_balanced opn cls response (i + 1) (n - 1) start ins' False cs)
         else extract_balanced opn cls response (i + 1) n start ins' False cs))"

definition extractMultipleJsonObjects :: "string \<Rightarrow> string list" where
  "extractMultipleJsonObjects response =
     extract_balanced (CHR ''{'') (CHR ''}'') response 0 0 None False False response"

definition extractMultipleJsonArrays :: "string \<Rightarrow> string list" where
  "extractMultipleJsonArrays response =
     extract_balanced (CHR ''['') (CHR '']'') response 0 0 None False False response"

definition number_of_nat :: "nat \<Rightarrow> json" where
  "number_of_nat n = norm_num (int n) 0"

definition schedule_items :: "json \<Rightarrow> json" where
  "schedule_items s =
     or_default (js_or (js_or (get_prop s ''schedule'') (get_prop s ''sessions''))
                   (get_prop s ''proposedSchedule'')) (JArr [])"

text \<open>
  One iteration of the \<open>forEach\<close> of \<open>mergeScheduleData\<close> on the accumulated slots, locations
  and \<open>totalSessions\<close>; \<open>None\<close> once an iteration has thrown.
\<close>

definition merge_step ::
  "(json list \<times> json list \<times> json) option \<Rightarrow> json \<Rightarrow> (json list \<times> json list \<times> json) option" where
  "merge_step acc s =
     (case acc of
        None \<Rightarrow> None
      | Some (slots, locs, count) \<Rightarrow>
          if s = JNull then None
          else
            (let slots' = slots @ items (Some (schedule_items s));
                 locs' = (if truthy_opt (get_prop s ''locations'')
                          then foldl set_add locs (items (get_prop s ''locations'')) else locs)
             in if truthy_opt (get_prop s ''totalSessions'') then
                  (case js_plus count (the (get_prop s ''totalSessions'')) of
                     None \<Rightarrow> None
                   | Some count' \<Rightarrow> Some (slots', locs', count'))
                else Some (slots', locs', count)))"

definition mergeScheduleData :: "json list \<Rightarrow> json" where
  "mergeScheduleData schedules =
     (case foldl merge_step (Some ([], [], JNum 0 0)) schedules of
        None \<Rightarrow> (case schedules of [] \<Rightarrow> JObj [] | s # _ \<Rightarrow> if truthy s then s else JObj [])
      | Some (slots, locs, count) \<Rightarrow>
          JObj
            [(''schedule'', JArr slots),
             (''sessions'', JArr slots),
             (''totalSessions'', if count = JNum 0 0 then number_of_nat (length slots) else count),
             (''locations'', JArr locs),
             (''timeRange'', JObj [(''start'', JNull), (''end'', JNull)])])"

definition schedule_bearing :: "json \<Rightarrow> bool" where
  "schedule_bearing obj \<longleftrightarrow>
     truthy_opt (get_prop obj ''schedule'') \<or> truthy_opt (get_prop obj ''sessions'') \<or>
     truthy_opt (get_prop obj ''proposedSchedule'')"

definition parsed_objects :: "string list \<Rightarrow> json list" where
  "parsed_objects strs =
     concat (map (\<lambda>str. case JSON_parse str of None \<Rightarrow> [] | Some obj \<Rightarrow> if obj = JNull then [] else [obj])
       strs)"

definition first_or_empty :: "string list \<Rightarrow> string" where
  "first_or_empty xs = (case xs of [] \<Rightarrow> [] | x # _ \<Rightarrow> x)"

definition combineJsonObjects :: "string list \<Rightarrow> string" where
  "combineJsonObjects jsonObjects =
     (let schedules = filter schedule_bearing (parsed_objects jsonObjects)
      in if length schedules > 0 then JSON_stringify (mergeScheduleData schedules)
         else first_or_empty jsonObjects)"

text \<open>
  \<open>allItems.push(...array)\<close>: the elements of a parsed array; a parsed string spreads into
  its characters; anything else is not iterable, and the \<open>catch\<close> skips it.
\<close>

definition spread :: "json \<Rightarrow> json list" where
  "spread v = (case v of JArr xs \<Rightarrow> xs | JStr s \<Rightarrow> map (\<lambda>c. JStr [c]) s | _ \<Rightarrow> [])"

definition array_items :: "string \<Rightarrow> json list" where
  "array_items arrayStr = (case JSON_parse arrayStr of None \<Rightarrow> [] | Some array \<Rightarrow> spread array)"

definition combineJsonArrays :: "string list \<Rightarrow> string" where
  "combineJsonArrays jsonArrays = JSON_stringify (JArr (concat (map array_items jsonArrays)))"

definition part_items :: "string \<Rightarrow> json list" where
  "part_items part =
     (case JSON_parse part of
        None \<Rightarrow> []
      | Some parsed \<Rightarrow>
          (case parsed of
             JArr xs \<Rightarrow> xs
           | JNull \<Rightarrow> []
           | _ \<Rightarrow>
               if truthy_opt (get_prop parsed ''schedule'') \<or> truthy_opt (get_prop parsed ''sessions'')
               then items (js_or (get_prop parsed ''schedule'') (get_prop parsed ''sessions''))
               else []))"

definition combineJsonParts :: "string list \<Rightarrow> string" where
  "combineJsonParts parts =
     (let allItems = concat (map part_items parts)
      in if length allItems > 0 then JSON_stringify (JArr allItems) else first_or_empty parts)"

text \<open>
  The marker of the part expression, \<open>Part\s*\d+\<close> or \<open>Response\s*\d+\<close> without regard to
  case: the number of characters it matches at the head of the text.
\<close>

definition lower :: "char \<Rightarrow> char" where
  "lower c = (if (65::nat) \<le> of_char c \<and> of_char c \<le> (90::nat) then char_of (of_char c + (32::nat)) else c)"

definition starts_ci :: "string \<Rightarrow> string \<Rightarrow> bool" where
  "starts_ci s p \<longleftrightarrow> map lower (take (length p) s) = p"

definition marker_len :: "string \<Rightarrow> nat option" where
  "marker_len s =
     (case (if starts_ci s ''part'' then Some 4
            else if starts_ci s ''response'' then Some 8 else None) of
        None \<Rightarrow> None
      | Some w \<Rightarrow>
          (let ws = takeWhile js_space (drop w s);
               ds = takeWhile is_digit (drop (w + length ws) s)
           in if ds = [] then None else Some (w + length ws + length ds)))"

definition part_sep :: "char \<Rightarrow> bool" where
  "part_sep c \<longleftrightarrow> c = CHR '':'' \<or> js_space c"

fun until_marker :: "string \<Rightarrow> string" where
  "until_marker [] = []"
| "until_marker (c # cs) = (if marker_len (c # cs) \<noteq> None then [] else c # until_marker cs)"

text \<open>
  The \<open>exec\<close> loop over
  \<open>/(?:Part\s*\d+|Response\s*\d+)[:\s]*([\s\S]*?)(?=Part\s*\d+|Response\s*\d+|$)/gi\<close>: the
  trimmed, non-empty captures, in order.
\<close>

function collect_parts :: "string \<Rightarrow> string list" where
  "collect_parts [] = []"
| "collect_parts (c # cs) =
     (case marker_len (c # cs) of
        None \<Rightarrow> collect_parts cs
      | Some w \<Rightarrow>
          (let seps = takeWhile part_sep (drop w (c # cs));
               cap = until_marker (drop (w + length seps) (c # cs))
           in (if trim cap \<noteq> [] then [trim cap] else [])
                @ collect_parts (drop (w + length seps + length cap - 1) cs)))"
  by pat_completeness auto
termination
  by (relation "measure length") auto

text \<open>\<open>str.replace(/\\x/g, y)\<close>: every backslash followed by \<open>x\<close> becomes \<open>y\<close>.\<close>

fun replace_esc :: "char \<Rightarrow> char \<Rightarrow> string \<Rightarrow> string" where
  "replace_esc x y (c # d # cs) =
     (if c = CHR 0x5C \<and> d = x then y # replace_esc x y cs else c # replace_esc x y (d # cs))"
| "replace_esc x y cs = cs"

definition fix_escapes :: "string \<Rightarrow> string" where
  "fix_escapes jsonContent =
     replace_esc (CHR 0x5C) (CHR 0x5C)
       (replace_esc (CHR 0x22) (CHR 0x22)
         (replace_esc (CHR ''r'') (CHR 0x0D)
           (replace_esc (CHR ''t'') (CHR 0x09)
             (replace_esc (CHR ''n'') (CHR 0x0A) jsonContent))))"

text \<open>\<open>response.match(/\{[\s\S]*\}/)\<close>: from the first \<open>{\<close> to the last \<open>}\<close> behind it.\<close>

definition json_match :: "string \<Rightarrow> string option" where
  "json_match response =
     (let r = dropWhile (\<lambda>c. c \<noteq> CHR ''{'') response;
          m = rev (dropWhile (\<lambda>c. c \<noteq> CHR ''}'') (rev r))
      in if m = [] then None else Some m)"

definition combinePartedResponses :: "string \<Rightarrow> string" where
  "combinePartedResponses response =
     (case json_match response of
        Some jsonContent \<Rightarrow> fix_escapes jsonContent
      | None \<Rightarrow>
          (let parts = collect_parts response
           in if length parts > 1 then combineJsonParts parts else response))"

definition combineMultipleResponses :: "string \<Rightarrow> string" where
  "combineMultipleResponses agentResponse =
     (if agentResponse = [] then []
      else
        (let cleanedResponse = cleanResponse agentResponse;
             jsonObjects = extractMultipleJsonObjects cleanedResponse;
             jsonArrays = extractMultipleJsonArrays cleanedResponse
         in if length jsonObjects > 1 then combineJsonObjects jsonObjects
            else if length jsonArrays > 1 then combineJsonArrays jsonArrays
            else if str_includes cleanedResponse ''Part 1'' \<or> str_includes cleanedResponse ''Part 2'' \<or>
                    str_includes cleanedResponse ''Response 1'' \<or>
                    str_includes cleanedResponse ''Response 2''
              then combinePartedResponses cleanedResponse
            else if str_includes cleanedResponse type_text \<and> str_includes cleanedResponse value_key
              then combinePartedResponses cleanedResponse
            else cleanedResponse))"


section \<open>The polling client: \<open>pollAsyncSessionStatus\<close> and \<open>simulateAsyncProgress\<close>\<close>

datatype async_status = Pending | Processing | Completed | Failed | Cancelled

record status_response =
  status :: async_status
  agentResponse :: "string option"

text \<open>
  The fields of the component that the two timers read and write.  \<open>pollTimer\<close> and
  \<open>progressTimer\<close> say whether the interval of \<open>pollAsyncSessionStatus\<close>, respectively of
  \<open>simulateAsyncProgress\<close>, is still armed; \<open>pending\<close> counts the status requests that were
  sent and have not been answered yet; the two counters record the calls of the terminal
  handlers.
\<close>

record component =
  asyncSessionId :: "string option"
  asyncStatus :: "async_status option"
  asyncProgress :: real
  pollTimer :: bool
  progressTimer :: bool
  pending :: nat
  completionCalls :: nat
  failureCalls :: nat

definition cleanupAsyncIntervals :: "component \<Rightarrow> component" where
  "cleanupAsyncIntervals c = c\<lparr>pollTimer := False, progressTimer := False\<rparr>"

text \<open>
  \<open>handleAsyncAgentCompletion\<close> returns before the clean-up when the response carries a plain
  text message (an \<open>agentResponse\<close> that does not start with a brace).
\<close>

definition handleAsyncAgentCompletion :: "status_response \<Rightarrow> component \<Rightarrow> component" where
  "handleAsyncAgentCompletion r c =
     (let c1 = c\<lparr>asyncProgress := 100, completionCalls := completionCalls c + 1\<rparr>
      in case agentResponse r of
           None \<Rightarrow> cleanupAsyncIntervals c1
         | Some a \<Rightarrow>
             if a \<noteq> [] \<and> \<not> startsWith a ''{'' then c1 else cleanupAsyncIntervals c1)"

definition handleAsyncAgentFailure :: "status_response \<Rightarrow> component \<Rightarrow> component" where
  "handleAsyncAgentFailure r c = cleanupAsyncIntervals (c\<lparr>failureCalls := failureCalls c + 1\<rparr>)"

text \<open>
  One firing of the polling interval: it sends a status request, unless the session id is
  gone.  A cleared interval does not fire.
\<close>

definition poll_tick :: "component \<Rightarrow> component" where
  "poll_tick c =
     (if \<not> pollTimer c then c
      else if asyncSessionId c = None then c\<lparr>pollTimer := False\<rparr>
      else c\<lparr>pending := pending c + 1\<rparr>)"

text \<open>
  The \<open>then\<close> callback of a status request that resolves with \<open>r\<close>.  It runs whenever the
  answer arrives, also after the interval has been cleared.
\<close>

definition status_update :: "status_response \<Rightarrow> component \<Rightarrow> component" where
  "status_update r c =
     (let c1 = c\<lparr>asyncStatus := Some (status r)\<rparr> in
      case status r of
        Pending \<Rightarrow> c1\<lparr>asyncProgress := 10\<rparr>
      | Processing \<Rightarrow> c1\<lparr>asyncProgress := min (asyncProgress c + 15) 85\<rparr>
      | Completed \<Rightarrow> handleAsyncAgentCompletion r (c1\<lparr>asyncProgress := 100, pollTimer := False\<rparr>)
      | Failed \<Rightarrow> handleAsyncAgentFailure r (c1\<lparr>asyncProgress := 100, pollTimer := False\<rparr>)
      | Cancelled \<Rightarrow> c1)"

text \<open>
  One firing of the progress interval; \<open>x\<close> is the value of \<open>Math.random() * 5\<close>, a number
  from 0 up to, but not including, 5.
\<close>

definition progress_tick :: "real \<Rightarrow> component \<Rightarrow> component" where
  "progress_tick x c =
     (if \<not> progressTimer c then c
      else if asyncSessionId c = None \<or> asyncStatus c = Some Completed \<or> asyncStatus c = Some Failed
        then c\<lparr>progressTimer := False\<rparr>
      else if asyncStatus c = Some Processing \<and> asyncProgress c < 85
        then c\<lparr>asyncProgress := asyncProgress c + x\<rparr>
      else c)"

text \<open>
  The events of a run: the polling interval fires, a status request that is in flight is
  answered or fails, the progress interval fires.
\<close>

datatype timer_event = Tick | Reply status_response | ReplyError | Progress real

fun fire :: "component \<Rightarrow> timer_event \<Rightarrow> component" where
  "fire c Tick = poll_tick c"
| "fire c (Reply r) = status_update r (c\<lparr>pending := pending c - 1\<rparr>)"
| "fire c ReplyError = c\<lparr>pending := pending c - 1\<rparr>"
| "fire c (Progress x) = progress_tick x c"

text \<open>The component as \<open>handleAsyncAgentInitiation\<close> and \<open>startAsyncSessionMonitoring\<close> leave it.\<close>

definition monitoring :: "string \<Rightarrow> component" where
  "monitoring sid =
     \<lparr>asyncSessionId = Some sid, asyncStatus = Some Processing, asyncProgress = 0,
      pollTimer = True, progressTimer = True, pending = 0, completionCalls = 0,
      failureCalls = 0\<rparr>"

text \<open>The progress estimates seen after each event of a run.\<close>

fun progress_trace :: "component \<Rightarrow> timer_event list \<Rightarrow> real list" where
  "progress_trace c [] = []"
| "progress_trace c (e # es) = asyncProgress (fire c e) # progress_trace (fire c e) es"

definition terminal :: "async_status \<Rightarrow> bool" where
  "terminal s \<longleftrightarrow> s = Completed \<or> s = Failed"

text \<open>
  Statuses that only move forward, as the session record guarantees: \<open>Pending\<close>, then
  \<open>Processing\<close>, then a terminal status.
\<close>

fun rank :: "async_status \<Rightarrow> nat" where
  "rank Pending = 0"
| "rank Processing = 1"
| "rank Completed = 2"
| "rank Failed = 2"
| "rank Cancelled = 2"

fun forward_only :: "status_response list \<Rightarrow> bool" where
  "forward_only [] = True"
| "forward_only [r] = True"
| "forward_only (r # r' # rs) = (rank (status r) \<le> rank (status r') \<and> forward_only (r' # rs))"

section \<open>The batch coordinator\<close>

text \<open>
  Modelled from the spec: the class \<open>SchedulingAgentQueueable\<close> is not among the sources, only
  its description in \<open>SELF_CHAINING_QUEUEABLE_README.md\<close>.  One link follows section 4.5 of the
  specification: stop when the session was cancelled; re-read the remaining count and complete
  when it is zero; otherwise ask the agent for one batch, where an exception fails the session;
  count the batch and the link; fail with the reason \<open>chain limit reached\<close> when the chain
  depth has reached the maximum of 5; otherwise enqueue the next link.
\<close>

datatype batch_outcome = BatchCreated nat | AgentException string

record link_input =
  cancelled :: bool
  remainingCount :: nat
  outcome :: batch_outcome

record chain =
  sessionStatus :: async_status
  reason :: string
  totalProcessed :: nat
  chainDepth :: nat
  enqueued :: nat
  started :: nat

definition maxChainDepth :: nat where
  "maxChainDepth = 5"

definition start_chain :: chain where
  "start_chain =
     \<lparr>sessionStatus = Pending, reason = [], totalProcessed = 0, chainDepth = 0,
      enqueued = 1, started = 0\<rparr>"

definition execute_link :: "link_input \<Rightarrow> chain \<Rightarrow> chain" where
  "execute_link i ch =
     (if cancelled i then ch\<lparr>sessionStatus := Cancelled\<rparr>
      else if remainingCount i = 0 then
        ch\<lparr>sessionStatus := Completed, reason := ''Successfully scheduled all sessions in batches.''\<rparr>
      else
        (case outcome i of
           AgentException e \<Rightarrow> ch\<lparr>sessionStatus := Failed, reason := e\<rparr>
         | BatchCreated n \<Rightarrow>
             (let ch1 = ch\<lparr>sessionStatus := Processing, totalProcessed := totalProcessed ch + n,
                           chainDepth := chainDepth ch + 1\<rparr>
              in if chainDepth ch1 \<ge> maxChainDepth
                 then ch1\<lparr>sessionStatus := Failed, reason := ''chain limit reached''\<rparr>
                 else ch1\<lparr>enqueued := enqueued ch1 + 1\<rparr>)))"

definition link_waiting :: "chain \<Rightarrow> bool" where
  "link_waiting ch \<longleftrightarrow>
     (sessionStatus ch = Pending \<or> sessionStatus ch = Processing) \<and> started ch < enqueued ch"

text \<open>The platform runs an enqueued link at most once, each with what it then observes.\<close>

fun run_chain :: "chain \<Rightarrow> link_input list \<Rightarrow> chain" where
  "run_chain ch [] = ch"
| "run_chain ch (i # is) =
     (if link_waiting ch then run_chain (execute_link i (ch\<lparr>started := started ch + 1\<rparr>)) is
      else ch)"

definition batch_ok :: "link_input \<Rightarrow> bool" where
  "batch_ok i \<longleftrightarrow>
     \<not> cancelled i \<and> remainingCount i > 0 \<and> (case outcome i of BatchCreated n \<Rightarrow> True | _ \<Rightarrow> False)"


section \<open>Notions used in the statements\<close>

text \<open>A platform on which no string is a valid date.\<close>

definition no_dates :: "string \<Rightarrow> int option" where
  "no_dates s = None"

text \<open>\<open>escq s\<close> is \<open>s\<close> between two escaped quotes, as inside the \<open>value\<close> of a wrapper.\<close>

definition escq :: "string \<Rightarrow> string" where
  "escq s = [CHR 0x5C, CHR 0x22] @ s @ [CHR 0x5C, CHR 0x22]"

definition speakers_of :: "agent_result \<Rightarrow> json option list" where
  "speakers_of r =
     (case r of Success p \<Rightarrow> map (\<lambda>slot. get_prop slot ''speakers'') (schedule p) | _ \<Rightarrow> [])"

text \<open>The slot that recovery builds from a record with only a name and a location.\<close>

definition default_slot :: "json \<Rightarrow> json \<Rightarrow> json" where
  "default_slot name loc =
     JObj
       [(''sessionName'', name),
        (''location'', loc),
        (''speakers'', JArr [JStr ''Speaker TBD'']),
        (''startTime'', JNull),
        (''endTime'', JNull),
        (''format'', JStr ''Session''),
        (''focus'', JStr ''General''),
        (''sessionAbstract'', JStr ''Session details not available due to truncation'')]"

definition slot_fields :: "string list" where
  "slot_fields =
     [''sessionName'', ''location'', ''speakers'', ''startTime'', ''endTime'', ''format'',
      ''focus'', ''sessionAbstract'']"

definition null_or_truthy :: "json option \<Rightarrow> bool" where
  "null_or_truthy v \<longleftrightarrow> v = Some JNull \<or> truthy_opt v"

text \<open>
  A slot with no field left undefined: exactly the eight fields, all truthy except the two
  times, which may be \<open>null\<close>.
\<close>

definition complete_slot :: "json \<Rightarrow> bool" where
  "complete_slot slot \<longleftrightarrow>
     (case slot of JObj kvs \<Rightarrow> map fst kvs = slot_fields | _ \<Rightarrow> False) \<and>
     truthy_opt (get_prop slot ''sessionName'') \<and>
     truthy_opt (get_prop slot ''location'') \<and>
     truthy_opt (get_prop slot ''speakers'') \<and>
     null_or_truthy (get_prop slot ''startTime'') \<and>
     null_or_truthy (get_prop slot ''endTime'') \<and>
     truthy_opt (get_prop slot ''format'') \<and>
     truthy_opt (get_prop slot ''focus'') \<and>
     truthy_opt (get_prop slot ''sessionAbstract'')"

text \<open>The text without its backslashes and the characters they escape.\<close>

fun drop_escapes :: "string \<Rightarrow> string" where
  "drop_escapes (c # d # cs) =
     (if c = CHR 0x5C then drop_escapes cs else c # drop_escapes (d # cs))"
| "drop_escapes [c] = (if c = CHR 0x5C then [] else [c])"
| "drop_escapes [] = []"

text \<open>
  The slot that one candidate text yields: none when \<open>JSON.parse\<close> rejects the text or the
  parsed record is not kept.  \<open>kept_slots\<close> are the slots of a list of candidates, in order, the
  candidates without a slot left out.
\<close>

definition candidate_slot :: "string \<Rightarrow> json option" where
  "candidate_slot str =
     (case JSON_parse str of None \<Rightarrow> None | Some session \<Rightarrow> completeSession session)"

definition kept_slots :: "string list \<Rightarrow> json list" where
  "kept_slots strs =
     concat (map (\<lambda>str. case candidate_slot str of None \<Rightarrow> [] | Some slot \<Rightarrow> [slot]) strs)"

text \<open>
  The slots that recovery finds in a cleaned response: those of the candidates of the
  brace-matching scan, each repaired, or, when there is none, those of the matches of the
  aggressive pattern.
\<close>

definition recovered_slots :: "string \<Rightarrow> json list" where
  "recovered_slots cleanedResponse =
     (if kept_slots (map repair_candidate (scan_objects cleanedResponse)) = []
      then kept_slots (map repair_aggressive (aggressive_matches cleanedResponse))
      else kept_slots (map repair_candidate (scan_objects cleanedResponse)))"

text \<open>The fallback of a field, and a slot field that is the record's own value or the fallback.\<close>

definition fallback :: "string \<Rightarrow> json" where
  "fallback field =
     (if field = ''speakers'' then JArr [JStr ''Speaker TBD'']
      else if field = ''format'' then JStr ''Session''
      else if field = ''focus'' then JStr ''General''
      else if field = ''sessionAbstract''
        then JStr ''Session details not available due to truncation''
      else JNull)"

definition own_or_fallback :: "json \<Rightarrow> json \<Rightarrow> string \<Rightarrow> bool" where
  "own_or_fallback session slot field \<longleftrightarrow>
     get_prop slot field =
       Some (if truthy_opt (get_prop session field) then the (get_prop session field)
             else fallback field)"

text \<open>The candidate texts that recovery may parse: those of the scan, then those of the pattern.\<close>

definition candidates :: "string \<Rightarrow> string list" where
  "candidates cleanedResponse =
     map repair_candidate (scan_objects cleanedResponse) @
     map repair_aggressive (aggressive_matches cleanedResponse)"

text \<open>
  A run that can happen: an answer or a failure belongs to a request in flight.  In a serial
  run, moreover, a request is only sent when none is in flight, as when every answer arrives
  within the 15 seconds of the polling interval.
\<close>

fun feasible :: "component \<Rightarrow> timer_event list \<Rightarrow> bool" where
  "feasible c [] = True"
| "feasible c (e # es) =
     ((case e of Reply r \<Rightarrow> 0 < pending c | ReplyError \<Rightarrow> 0 < pending c | _ \<Rightarrow> True) \<and>
      feasible (fire c e) es)"

fun serial :: "component \<Rightarrow> timer_event list \<Rightarrow> bool" where
  "serial c [] = True"
| "serial c (e # es) =
     ((case e of
         Tick \<Rightarrow> pending c = 0
       | Reply r \<Rightarrow> 0 < pending c
       | ReplyError \<Rightarrow> 0 < pending c
       | Progress x \<Rightarrow> True) \<and>
      serial (fire c e) es)"

text \<open>The events of a run that are status updates, and the estimate after each of them.\<close>

fun polled :: "timer_event list \<Rightarrow> status_response list" where
  "polled [] = []"
| "polled (Reply r # es) = r # polled es"
| "polled (e # es) = polled es"

fun poll_samples :: "component \<Rightarrow> timer_event list \<Rightarrow> real list" where
  "poll_samples c [] = []"
| "poll_samples c (Reply r # es) =
     asyncProgress (fire c (Reply r)) # poll_samples (fire c (Reply r)) es"
| "poll_samples c (e # es) = poll_samples (fire c e) es"

fun random_ok :: "timer_event \<Rightarrow> bool" where
  "random_ok (Progress x) = (0 \<le> x \<and> x < 5)"
| "random_ok e = True"

definition handler_calls :: "component \<Rightarrow> nat" where
  "handler_calls c = completionCalls c + failureCalls c"


section \<open>Invariants used in the proofs\<close>

text \<open>A result whose \<open>totalSessions\<close> is the length of its schedule.\<close>

definition counted :: "agent_result \<Rightarrow> bool" where
  "counted r \<longleftrightarrow> (case r of Success p \<Rightarrow> totalSessions p = length (schedule p) | _ \<Rightarrow> True)"

text \<open>No backslash in what the scan has accumulated.\<close>

definition no_backslash :: "scan_state \<Rightarrow> bool" where
  "no_backslash st \<longleftrightarrow>
     CHR 0x5C \<notin> set (currentObject st) \<and> (\<forall>obj\<in>set (sessionObjects st). CHR 0x5C \<notin> set obj)"

text \<open>A cleaned response is empty, or starts with a JSON starter and ends with a JSON ender.\<close>

definition framed :: "string \<Rightarrow> bool" where
  "framed c \<longleftrightarrow> c = [] \<or> (json_starter (hd c) \<and> json_ender (last c))"

text \<open>
  A cleaned response on which no pattern of \<open>combineMultipleResponses\<close> fires, so that it is
  returned as it is.
\<close>

definition pass_through :: "string \<Rightarrow> bool" where
  "pass_through c \<longleftrightarrow>
     length (extractMultipleJsonObjects c) \<le> 1 \<and> length (extractMultipleJsonArrays c) \<le> 1 \<and>
     \<not> str_includes c ''Part 1'' \<and> \<not> str_includes c ''Part 2'' \<and>
     \<not> str_includes c ''Response 1'' \<and> \<not> str_includes c ''Response 2'' \<and>
     \<not> (str_includes c type_text \<and> str_includes c value_key)"

text \<open>
  While a chain is running, the links enqueued are one more than the links that have processed
  a batch, every enqueued link but the last has started, and the depth is below the limit.
\<close>

definition chain_inv :: "chain \<Rightarrow> bool" where
  "chain_inv ch \<longleftrightarrow>
     enqueued ch \<le> 5 \<and>
     (sessionStatus ch = Pending \<or> sessionStatus ch = Processing \<longrightarrow>
        enqueued ch = chainDepth ch + 1 \<and> started ch = chainDepth ch \<and> chainDepth ch < 5)"

definition forward_from :: "nat \<Rightarrow> status_response list \<Rightarrow> bool" where
  "forward_from k rs \<longleftrightarrow> forward_only rs \<and> (rs \<noteq> [] \<longrightarrow> k \<le> rank (status (hd rs)))"

text \<open>
  \<open>tracking c v k\<close>: the last sample \<open>v\<close> and the rank \<open>k\<close> of the last status seen are
  consistent with the component.
\<close>

definition tracking :: "component \<Rightarrow> real \<Rightarrow> nat \<Rightarrow> bool" where
  "tracking c v k \<longleftrightarrow>
     v \<le> asyncProgress c \<and> asyncProgress c \<le> 100 \<and> (k = 0 \<longrightarrow> v \<le> 10) \<and> (k \<le> 1 \<longrightarrow> v \<le> 85)"

text \<open>
  In a serial run at most one request is in flight.  A component whose polling timer is armed
  has called no handler; one whose timer is cleared has called exactly one, shows 100 and has
  no request in flight.
\<close>

definition settled :: "component \<Rightarrow> bool" where
  "settled c \<longleftrightarrow>
     asyncSessionId c \<noteq> None \<and> pending c \<le> 1 \<and>
     (if pollTimer c then handler_calls c = 0
      else handler_calls c = 1 \<and> pending c = 0 \<and> asyncProgress c = 100 \<and>
           (asyncStatus c = Some Completed \<or> asyncStatus c = Some Failed))"


section \<open>Truncated arrays of records\<close>

definition primitive_time :: "json option \<Rightarrow> bool" where
  "primitive_time v = (case v of None \<Rightarrow> True | Some x \<Rightarrow> is_primitive x)"

text \<open>
  The text of a well-formed session record, as a complete element of the array: it runs from
  its opening brace to its closing brace, has no backslash escape and no comma before a
  closing brace, and \<open>JSON.parse\<close> accepts it as a record with a truthy \<open>sessionName\<close> and
  \<open>location\<close> whose times, where present, are strings or other primitives.
\<close>

definition record_text :: "string \<Rightarrow> bool" where
  "record_text obj \<longleftrightarrow>
     startsWith obj ''{'' \<and> endsWith obj ''}'' \<and>
     CHR 0x5C \<notin> set obj \<and> repair_candidate obj = obj \<and>
     (case JSON_parse obj of
        None \<Rightarrow> False
      | Some session \<Rightarrow>
          completeSession session \<noteq> None \<and>
          primitive_time (get_prop session ''startTime'') \<and>
          primitive_time (get_prop session ''endTime''))"

definition slot_of :: "string \<Rightarrow> json" where
  "slot_of obj = the (completeSession (the (JSON_parse obj)))"

definition location_of :: "string \<Rightarrow> json" where
  "location_of obj = the (get_prop (the (JSON_parse obj)) ''location'')"

text \<open>
  The characters that stand between the elements of a JSON array, compact or pretty-printed:
  the opening bracket, the commas and the white space of JSON.
\<close>

definition filler :: "char \<Rightarrow> bool" where
  "filler c \<longleftrightarrow> c = CHR ''['' \<or> c = CHR '','' \<or> json_ws c"

text \<open>
  An element \<open>(gap, obj)\<close> is the text of the record \<open>obj\<close> with the separators \<open>gap\<close> in
  front of it; \<open>array_text\<close> is the text of the elements in a row.
\<close>

definition element_text :: "string \<times> string \<Rightarrow> bool" where
  "element_text e \<longleftrightarrow> list_all filler (fst e) \<and> record_text (snd e)"

definition array_text :: "(string \<times> string) list \<Rightarrow> string" where
  "array_text elems = concat (map (\<lambda>e. fst e @ snd e) elems)"

text \<open>
  The array of the elements \<open>elems\<close>, cut off after the separators \<open>gap\<close> and the first \<open>k\<close>
  characters of one more record.
\<close>

definition truncated_array :: "(string \<times> string) list \<Rightarrow> string \<Rightarrow> string \<Rightarrow> nat \<Rightarrow> string" where
  "truncated_array elems gap nxt k = array_text elems @ gap @ take k nxt"

text \<open>The schedule of a successful result; a failure has none.\<close>

definition recovered_schedule :: "agent_result \<Rightarrow> json list option" where
  "recovered_schedule r = (case r of Success p \<Rightarrow> Some (schedule p) | Failure e raw nt \<Rightarrow> None)"

definition wrapper_shaped :: "string \<Rightarrow> bool" where
  "wrapper_shaped response \<longleftrightarrow> str_includes response type_text \<and> str_includes response value_key"

section \<open>Notions used in the proofs about truncated arrays\<close>

text \<open>
  The brace depth of a text that holds no backslash, as the scans follow it: a quote opens or
  closes a string, a brace outside a string opens or closes an object.
\<close>

definition brace_step :: "bool \<times> int \<Rightarrow> char \<Rightarrow> bool \<times> int" where
  "brace_step s c =
     (let ins = (if c = CHR 0x22 then \<not> fst s else fst s)
      in (ins,
          if ins then snd s
          else if c = CHR ''{'' then snd s + 1
          else if c = CHR ''}'' then snd s - 1
          else snd s))"

definition brace_state :: "string \<Rightarrow> bool \<times> int" where
  "brace_state s = foldl brace_step (False, 0) s"

text \<open>
  The text of one object: it opens with a brace, which is closed by its last character and
  not before.
\<close>

definition balanced_object :: "string \<Rightarrow> bool" where
  "balanced_object obj \<longleftrightarrow>
     startsWith obj ''{'' \<and> brace_state obj = (False, 0) \<and>
     list_all (\<lambda>j. 1 \<le> snd (brace_state (take j obj))) [1..<length obj]"

text \<open>Characters that leave the brace depth alone, and the brace weight of a token.\<close>

definition inert :: "char \<Rightarrow> bool" where
  "inert c \<longleftrightarrow> c \<noteq> CHR 0x22 \<and> c \<noteq> CHR ''{'' \<and> c \<noteq> CHR ''}''"

fun token_weight :: "token \<Rightarrow> int" where
  "token_weight TLBrace = 1"
| "token_weight TRBrace = - 1"
| "token_weight t = 0"

definition brace_weight :: "token list \<Rightarrow> int" where
  "brace_weight ts = sum_list (map token_weight ts)"

fun object_frames :: "frame list \<Rightarrow> int" where
  "object_frames [] = 0"
| "object_frames (FObj kvs k # st) = 1 + object_frames st"
| "object_frames (FArr xs # st) = object_frames st"

text \<open>A finished parse has closed every array and object.\<close>

definition settled_mode :: "pmode \<Rightarrow> frame list \<Rightarrow> bool" where
  "settled_mode m st \<longleftrightarrow> (case m of PDone w \<Rightarrow> st = [] | _ \<Rightarrow> True)"

text \<open>
  The text of one token, as the brace depth sees it: the depth moves by the weight of the
  token over the whole text and stays where it was before the end of the text.
\<close>

definition token_text :: "string \<Rightarrow> token \<Rightarrow> bool" where
  "token_text pre t \<longleftrightarrow>
     pre \<noteq> [] \<and>
     (\<forall>n. foldl brace_step (False, n) pre = (False, n + token_weight t)) \<and>
     (\<forall>n j. j < length pre \<longrightarrow> snd (foldl brace_step (False, n) (take j pre)) = n)"

text \<open>A stack of open arrays and objects whose outermost frame is an object.\<close>

definition rooted :: "frame list \<Rightarrow> bool" where
  "rooted st \<longleftrightarrow> st \<noteq> [] \<and> (case last st of FObj kvs k \<Rightarrow> True | FArr xs \<Rightarrow> False)"

definition neutral :: "scan_state \<Rightarrow> bool" where
  "neutral st \<longleftrightarrow> braceCount st = 0 \<and> \<not> inString st \<and> \<not> escapeNext st \<and> currentObject st = []"

section \<open>Recovered slots are complete\<close>

lemma or_default_own:
  "or_default a d = (if truthy_opt a then the a else d)"
  by (simp add: or_default_def truthy_opt_def split: option.splits)

lemma completeSession_JNull: "completeSession JNull = None"
  by (simp add: completeSession_def get_prop_def)

lemma add_candidate_kept:
  "fst (add_candidate acc str) =
     fst acc @ (case candidate_slot str of None \<Rightarrow> [] | Some slot \<Rightarrow> [slot])"
  by (auto simp: add_candidate_def candidate_slot_def completeSession_JNull split: option.splits)

lemma foldl_add_candidate_kept:
  "fst (foldl add_candidate acc strs) = fst acc @ kept_slots strs"
proof (induction strs arbitrary: acc)
  case Nil
  then show ?case by (simp add: kept_slots_def)
next
  case (Cons str strs)
  have "kept_slots (str # strs) =
      (case candidate_slot str of None \<Rightarrow> [] | Some slot \<Rightarrow> [slot]) @ kept_slots strs"
    by (simp add: kept_slots_def)
  with Cons.IH [of "add_candidate acc str"] add_candidate_kept [of acc str] show ?case
    by simp
qed

lemma recovered_sessions_kept: "fst (recovered_sessions c) = recovered_slots c"
  using foldl_add_candidate_kept [of "([], [])" "map repair_candidate (scan_objects c)"]
    foldl_add_candidate_kept [of "foldl add_candidate ([], []) (map repair_candidate (scan_objects c))"
      "map repair_aggressive (aggressive_matches c)"]
  by (simp add: recovered_sessions_def recovered_slots_def Let_def)

lemma extract_schedule:
  "schedule (extractPartialScheduleData dp response) =
     (if calculateTimeRange dp (recovered_slots (cleanResponse response)) = None then []
      else recovered_slots (cleanResponse response))"
  by (simp add: extractPartialScheduleData_def Let_def recovered_sessions_kept
      split: option.splits)

lemma candidate_slot_discarded:
  "candidate_slot str = None \<longleftrightarrow>
     (case JSON_parse str of
        None \<Rightarrow> True
      | Some session \<Rightarrow>
          \<not> truthy_opt (get_prop session ''sessionName'') \<or>
          \<not> truthy_opt (get_prop session ''location''))"
  by (auto simp: candidate_slot_def completeSession_def truthy_opt_def split: option.splits)

lemma candidate_slot_kept:
  assumes "candidate_slot str = Some slot"
  shows "\<exists>session. JSON_parse str = Some session \<and> completeSession session = Some slot \<and>
           truthy_opt (get_prop session ''sessionName'') \<and>
           truthy_opt (get_prop session ''location'') \<and>
           get_prop slot ''sessionName'' = get_prop session ''sessionName'' \<and>
           get_prop slot ''location'' = get_prop session ''location'' \<and>
           own_or_fallback session slot ''speakers'' \<and>
           own_or_fallback session slot ''startTime'' \<and>
           own_or_fallback session slot ''endTime'' \<and>
           own_or_fallback session slot ''format'' \<and>
           own_or_fallback session slot ''focus'' \<and>
           get_prop slot ''sessionAbstract'' =
             Some (if truthy_opt (get_prop session ''sessionAbstract'')
                   then the (get_prop session ''sessionAbstract'')
                   else if truthy_opt (get_prop session ''abstract'')
                   then the (get_prop session ''abstract'')
                   else fallback ''sessionAbstract'')"
proof -
  from assms obtain session where p: "JSON_parse str = Some session"
    and c: "completeSession session = Some slot"
    by (auto simp: candidate_slot_def split: option.splits)
  from c obtain name loc where n: "get_prop session ''sessionName'' = Some name" "truthy name"
    and l: "get_prop session ''location'' = Some loc" "truthy loc"
    and slot: "slot = JObj
              [(''sessionName'', name),
               (''location'', loc),
               (''speakers'', or_default (get_prop session ''speakers'') (JArr [JStr ''Speaker TBD''])),
               (''startTime'', or_default (get_prop session ''startTime'') JNull),
               (''endTime'', or_default (get_prop session ''endTime'') JNull),
               (''format'', or_default (get_prop session ''format'') (JStr ''Session'')),
               (''focus'', or_default (get_prop session ''focus'') (JStr ''General'')),
               (''sessionAbstract'',
                  or_default (js_or (get_prop session ''sessionAbstract'') (get_prop session ''abstract''))
                    (JStr ''Session details not available due to truncation''))]"
    by (auto simp: completeSession_def split: option.splits if_splits)
  have f: "own_or_fallback session slot ''speakers''" "own_or_fallback session slot ''startTime''"
    "own_or_fallback session slot ''endTime''" "own_or_fallback session slot ''format''"
    "own_or_fallback session slot ''focus''"
    by (simp_all add: own_or_fallback_def slot get_prop_def [of "JObj kvs" for kvs] fallback_def
        or_default_own)
  have a: "get_prop slot ''sessionAbstract'' =
             Some (if truthy_opt (get_prop session ''sessionAbstract'')
                   then the (get_prop session ''sessionAbstract'')
                   else if truthy_opt (get_prop session ''abstract'')
                   then the (get_prop session ''abstract'')
                   else fallback ''sessionAbstract'')"
    by (simp add: slot get_prop_def [of "JObj kvs" for kvs] fallback_def or_default_own js_or_def)
  have k: "get_prop slot ''sessionName'' = get_prop session ''sessionName''"
    "get_prop slot ''location'' = get_prop session ''location''"
    by (simp_all add: slot get_prop_def [of "JObj kvs" for kvs] n l)
  from p c n l f a k show ?thesis by (simp add: truthy_opt_def)
qed

lemma or_default_truthy: "truthy d \<Longrightarrow> truthy (or_default a d)"
  by (simp add: or_default_def split: option.splits)

lemma or_default_null: "or_default a JNull = JNull \<or> truthy (or_default a JNull)"
  by (simp add: or_default_def split: option.splits)

lemma completeSession_complete:
  assumes "completeSession session = Some slot"
  shows "complete_slot slot"
proof -
  from assms obtain name loc where nl: "truthy name" "truthy loc"
    and slot: "slot = JObj
              [(''sessionName'', name),
               (''location'', loc),
               (''speakers'', or_default (get_prop session ''speakers'') (JArr [JStr ''Speaker TBD''])),
               (''startTime'', or_default (get_prop session ''startTime'') JNull),
               (''endTime'', or_default (get_prop session ''endTime'') JNull),
               (''format'', or_default (get_prop session ''format'') (JStr ''Session'')),
               (''focus'', or_default (get_prop session ''focus'') (JStr ''General'')),
               (''sessionAbstract'',
                  or_default (js_or (get_prop session ''sessionAbstract'') (get_prop session ''abstract''))
                    (JStr ''Session details not available due to truncation''))]"
    by (auto simp: completeSession_def split: option.splits if_splits)
  have t: "truthy (JArr [JStr ''Speaker TBD''])" "truthy (JStr ''Session'')" "truthy (JStr ''General'')"
    "truthy (JStr ''Session details not available due to truncation'')"
    by (simp_all add: truthy_def)
  show ?thesis
    unfolding slot complete_slot_def
    using nl or_default_null [of "get_prop session ''startTime''"]
      or_default_null [of "get_prop session ''endTime''"]
      or_default_truthy [OF t(1)] or_default_truthy [OF t(2)] or_default_truthy [OF t(3)]
      or_default_truthy [OF t(4)]
    by (simp add: get_prop_def slot_fields_def truthy_opt_def null_or_truthy_def)
qed

lemma completeSession_missing:
  "\<not> truthy_opt (get_prop session ''sessionName'') \<or> \<not> truthy_opt (get_prop session ''location'')
     \<Longrightarrow> completeSession session = None"
  by (auto simp: completeSession_def truthy_opt_def split: option.splits)

lemma completeSession_defaults:
  "truthy name \<Longrightarrow> truthy loc \<Longrightarrow>
   completeSession (JObj [(''sessionName'', name), (''location'', loc)]) = Some (default_slot name loc)"
  by (simp add: completeSession_def default_slot_def get_prop_def or_default_def js_or_def truthy_opt_def)

lemma kept_slots_set:
  "slot \<in> set (kept_slots strs) \<longleftrightarrow> (\<exists>str\<in>set strs. candidate_slot str = Some slot)"
  by (induction strs) (auto simp: kept_slots_def split: option.splits)

lemma recovered_slots_candidates:
  assumes "slot \<in> set (recovered_slots c)"
  shows "\<exists>str\<in>set (candidates c). candidate_slot str = Some slot"
  using assms by (auto simp: recovered_slots_def candidates_def kept_slots_set split: if_splits)

lemma schedule_candidates:
  assumes "slot \<in> set (schedule (extractPartialScheduleData dp response))"
  shows "complete_slot slot \<and>
         (\<exists>str\<in>set (candidates (cleanResponse response)). candidate_slot str = Some slot)"
proof -
  from assms have "slot \<in> set (recovered_slots (cleanResponse response))"
    by (simp add: extract_schedule split: if_splits)
  from recovered_slots_candidates [OF this] obtain str
    where s: "str \<in> set (candidates (cleanResponse response))" "candidate_slot str = Some slot"
    by blast
  from s(2) have "\<exists>session. completeSession session = Some slot"
    by (auto simp: candidate_slot_def split: option.splits)
  with completeSession_complete s show ?thesis by blast
qed

text \<open>
  Claim C7.  The schedule that \<open>extractPartialScheduleData\<close> returns is made of its
  candidates and of nothing else: it holds, in their order, the slots of the candidates of the
  scan that yield one, or of the matches of the aggressive pattern when the scan yields none
  (and is empty when the time range cannot be computed).  Every slot in it is complete, with
  exactly the eight slot fields, and is the slot of one of the candidates.  A candidate yields
  no slot, and is left out of the schedule, exactly when its text does not parse or its record
  has no truthy \<open>sessionName\<close> or no truthy \<open>location\<close> (a string is truthy when it is not
  empty).  A candidate that yields a slot has both; the slot carries these two values as they
  are and, for every other field, the value of the record when it is truthy and the fallback
  otherwise: speakers \<open>["Speaker TBD"]\<close>, both times \<open>null\<close>, format \<open>Session\<close>, focus
  \<open>General\<close> and, for the abstract, the record's \<open>abstract\<close> before the sentinel.
\<close>

theorem recovered_slots_complete:
  "schedule (extractPartialScheduleData dp response) =
     (if calculateTimeRange dp (recovered_slots (cleanResponse response)) = None then []
      else recovered_slots (cleanResponse response)) \<and>
   (slot \<in> set (schedule (extractPartialScheduleData dp response)) \<longrightarrow>
      complete_slot slot \<and>
      (\<exists>str\<in>set (candidates (cleanResponse response)). candidate_slot str = Some slot)) \<and>
   (candidate_slot str = None \<longleftrightarrow>
      (case JSON_parse str of
         None \<Rightarrow> True
       | Some session \<Rightarrow>
           \<not> truthy_opt (get_prop session ''sessionName'') \<or>
           \<not> truthy_opt (get_prop session ''location''))) \<and>
   (candidate_slot str' = Some slot' \<longrightarrow>
      (\<exists>session. JSON_parse str' = Some session \<and> completeSession session = Some slot' \<and>
         truthy_opt (get_prop session ''sessionName'') \<and>
         truthy_opt (get_prop session ''location'') \<and>
         get_prop slot' ''sessionName'' = get_prop session ''sessionName'' \<and>
         get_prop slot' ''location'' = get_prop session ''location'' \<and>
         own_or_fallback session slot' ''speakers'' \<and>
         own_or_fallback session slot' ''startTime'' \<and>
         own_or_fallback session slot' ''endTime'' \<and>
         own_or_fallback session slot' ''format'' \<and>
         own_or_fallback session slot' ''focus'' \<and>
         get_prop slot' ''sessionAbstract'' =
           Some (if truthy_opt (get_prop session ''sessionAbstract'')
                 then the (get_prop session ''sessionAbstract'')
                 else if truthy_opt (get_prop session ''abstract'')
                 then the (get_prop session ''abstract'')
                 else fallback ''sessionAbstract''))) \<and>
   (\<not> truthy_opt (get_prop cand ''sessionName'') \<or> \<not> truthy_opt (get_prop cand ''location'')
      \<longrightarrow> completeSession cand = None) \<and>
   (truthy name \<and> truthy loc \<longrightarrow>
      completeSession (JObj [(''sessionName'', name), (''location'', loc)]) =
        Some (default_slot name loc))"
  using extract_schedule [of dp response] schedule_candidates [of slot dp response]
    candidate_slot_discarded [of str] candidate_slot_kept [of str' slot']
    completeSession_missing [of cand] completeSession_defaults [of name loc]
  by blast

theorem recovered_slots_complete_witness:
  \<open>scan_objects (cleanResponse
       ''[{"sessionName":"A","location":"Room1"},{"sessionName":"B"},{"location":"Room3"},{"sessionName":"D"'') =
     [''{"sessionName":"A","location":"Room1"}'', ''{"sessionName":"B"}'', ''{"location":"Room3"}''] \<and>
   schedule (extractPartialScheduleData no_dates
       ''[{"sessionName":"A","location":"Room1"},{"sessionName":"B"},{"location":"Room3"},{"sessionName":"D"'') =
     [default_slot (JStr ''A'') (JStr ''Room1'')] \<and>
   complete_slot (default_slot (JStr ''A'') (JStr ''Room1'')) \<and>
   JSON_parse ''{"sessionName":"B"}'' = Some (JObj [(''sessionName'', JStr ''B'')]) \<and>
   candidate_slot ''{"sessionName":"B"}'' = None \<and>
   candidate_slot ''{"sessionName":"A","location":"Room1"}'' =
     Some (default_slot (JStr ''A'') (JStr ''Room1'')) \<and>
   \<not> truthy_opt (get_prop (JObj [(''location'', JStr ''Room3'')]) ''sessionName'') \<and>
   completeSession (JObj [(''location'', JStr ''Room3'')]) = None \<and>
   truthy (JStr ''A'') \<and> truthy (JStr ''Room1'') \<and>
   completeSession (JObj [(''sessionName'', JStr ''A''), (''location'', JStr ''Room1'')]) =
     Some (default_slot (JStr ''A'') (JStr ''Room1''))\<close>
proof -
  let ?payload = \<open>''[{"sessionName":"A","location":"Room1"},{"sessionName":"B"},{"location":"Room3"},{"sessionName":"D"''\<close>
  let ?slot = "default_slot (JStr ''A'') (JStr ''Room1'')"
  have s: \<open>scan_objects (cleanResponse ?payload) =
     [''{"sessionName":"A","location":"Room1"}'', ''{"sessionName":"B"}'', ''{"location":"Room3"}'']\<close>
    by code_simp
  have r: "recovered_slots (cleanResponse ?payload) = [?slot]"
    by code_simp
  have t: "calculateTimeRange no_dates [?slot] \<noteq> None"
    by code_simp
  have h1: "?slot \<in> set (schedule (extractPartialScheduleData no_dates ?payload))"
    by code_simp
  have p: \<open>JSON_parse ''{"sessionName":"B"}'' = Some (JObj [(''sessionName'', JStr ''B'')])\<close>
    by code_simp
  have h2: \<open>candidate_slot ''{"sessionName":"A","location":"Room1"}'' = Some ?slot\<close>
    by code_simp
  have h3: "\<not> truthy_opt (get_prop (JObj [(''location'', JStr ''Room3'')]) ''sessionName'')"
    by code_simp
  have h4: "truthy (JStr ''A'')" "truthy (JStr ''Room1'')"
    by (simp_all add: truthy_def)
  have l: "\<not> truthy_opt (get_prop (JObj [(''sessionName'', JStr ''B'')]) ''location'')"
    by code_simp
  from recovered_slots_complete [of no_dates ?payload ?slot \<open>''{"sessionName":"B"}''\<close>
      \<open>''{"sessionName":"A","location":"Room1"}''\<close> ?slot
      "JObj [(''location'', JStr ''Room3'')]" "JStr ''A''" "JStr ''Room1''"]
  have a: "schedule (extractPartialScheduleData no_dates ?payload) = [?slot]"
    and b: "complete_slot ?slot"
    and c: \<open>candidate_slot ''{"sessionName":"B"}'' = None\<close>
    and d: "completeSession (JObj [(''location'', JStr ''Room3'')]) = None"
    and e: "completeSession (JObj [(''sessionName'', JStr ''A''), (''location'', JStr ''Room1'')]) =
        Some ?slot"
    using r t h1 p h3 h4 l by simp_all
  from s a b p c h2 h3 d h4 e show ?thesis by simp
qed

section \<open>A text that parses is brace-balanced\<close>

lemma brace_inert: "inert c \<Longrightarrow> brace_step s c = s"
  by (cases s) (simp add: brace_step_def inert_def)

lemma foldl_inert: "list_all inert cs \<Longrightarrow> foldl brace_step s cs = s"
  by (induction cs arbitrary: s) (simp_all add: brace_inert)

lemma digit_inert: "is_digit c \<Longrightarrow> inert c"
  by (auto simp: is_digit_def inert_def)

lemma ws_inert: "json_ws c \<Longrightarrow> inert c"
  by (auto simp: json_ws_def inert_def)

lemma takeWhile_digit_inert: "list_all inert (takeWhile is_digit cs)"
  by (induction cs) (simp_all add: digit_inert)

lemma in_string: "CHR 0x22 \<notin> set s \<Longrightarrow> foldl brace_step (True, n) s = (True, n)"
  by (induction s) (auto simp: brace_step_def)

lemma lex_string_plain:
  "CHR 0x5C \<notin> set cs \<Longrightarrow> lex_string cs = Some (s, rest) \<Longrightarrow>
   \<exists>body. cs = body @ CHR 0x22 # rest \<and> CHR 0x22 \<notin> set body"
proof (induction cs arbitrary: s)
  case Nil
  then show ?case by simp
next
  case (Cons c cs)
  show ?case
  proof (cases "c = CHR 0x22")
    case True
    with Cons.prems show ?thesis by (intro exI [of _ "[]"]) simp
  next
    case False
    with Cons.prems obtain s' where s': "lex_string cs = Some (s', rest)"
      by (auto simp: cons_char_def split: if_splits)
    from Cons.prems(1) have "CHR 0x5C \<notin> set cs" by simp
    from Cons.IH [OF this s'] obtain body where "cs = body @ CHR 0x22 # rest" "CHR 0x22 \<notin> set body"
      by blast
    with False show ?thesis by (intro exI [of _ "c # body"]) simp
  qed
qed

lemma lex_fraction_inert:
  "lex_fraction cs = Some (f, r) \<Longrightarrow> \<exists>pre. cs = pre @ r \<and> list_all inert pre"
proof (cases cs)
  case Nil
  assume "lex_fraction cs = Some (f, r)"
  with Nil show ?thesis by (simp add: lex_fraction_def)
next
  case (Cons c t)
  assume a: "lex_fraction cs = Some (f, r)"
  show ?thesis
  proof (cases "c = CHR ''.''")
    case True
    with a Cons have r: "r = dropWhile is_digit t"
      by (simp add: lex_fraction_def Let_def split: if_splits)
    have "cs = (c # takeWhile is_digit t) @ r" using Cons r by simp
    moreover have "list_all inert (c # takeWhile is_digit t)"
      using True by (simp add: takeWhile_digit_inert inert_def)
    ultimately show ?thesis by blast
  next
    case False
    with a Cons have "r = cs" by (simp add: lex_fraction_def)
    then show ?thesis by (intro exI [of _ "[]"]) simp
  qed
qed

lemma lex_exponent_inert:
  "lex_exponent cs = Some (x, r) \<Longrightarrow> \<exists>pre. cs = pre @ r \<and> list_all inert pre"
proof (cases cs)
  case Nil
  assume "lex_exponent cs = Some (x, r)"
  with Nil show ?thesis by (simp add: lex_exponent_def)
next
  case (Cons c t)
  assume a: "lex_exponent cs = Some (x, r)"
  show ?thesis
  proof (cases "c = CHR ''e'' \<or> c = CHR ''E''")
    case False
    with a Cons have "r = cs" by (simp add: lex_exponent_def)
    then show ?thesis by (intro exI [of _ "[]"]) simp
  next
    case True
    then have c: "inert c" by (auto simp: inert_def)
    show ?thesis
    proof (cases "t \<noteq> [] \<and> (hd t = CHR ''-'' \<or> hd t = CHR ''+'')")
      case True
      then obtain s t' where t: "t = s # t'" and s: "s = CHR ''-'' \<or> s = CHR ''+''"
        by (cases t) auto
      from a Cons \<open>c = CHR ''e'' \<or> c = CHR ''E''\<close> t s have r: "r = dropWhile is_digit t'"
        by (auto simp: lex_exponent_def Let_def split: if_splits)
      have "cs = (c # s # takeWhile is_digit t') @ r" using Cons t r by simp
      moreover have "list_all inert (c # s # takeWhile is_digit t')"
        using c s by (auto simp: takeWhile_digit_inert inert_def)
      ultimately show ?thesis by blast
    next
      case False
      from a Cons \<open>c = CHR ''e'' \<or> c = CHR ''E''\<close> False have r: "r = dropWhile is_digit t"
        by (cases t) (auto simp: lex_exponent_def Let_def split: if_splits)
      have "cs = (c # takeWhile is_digit t) @ r" using Cons r by simp
      moreover have "list_all inert (c # takeWhile is_digit t)"
        using c by (simp add: takeWhile_digit_inert)
      ultimately show ?thesis by blast
    qed
  qed
qed

lemma lex_int_inert:
  "lex_int cs = Some (i, r) \<Longrightarrow> \<exists>pre. cs = pre @ r \<and> list_all inert pre \<and> pre \<noteq> []"
proof (cases cs)
  case Nil
  assume "lex_int cs = Some (i, r)"
  with Nil show ?thesis by (simp add: lex_int_def)
next
  case (Cons d t)
  assume a: "lex_int cs = Some (i, r)"
  with Cons have d: "is_digit d" by (auto simp: lex_int_def split: if_splits)
  show ?thesis
  proof (cases "d = CHR ''0''")
    case True
    with a Cons d have "r = t" by (simp add: lex_int_def)
    with Cons have "cs = [d] @ r" by simp
    moreover have "list_all inert [d]" using d by (simp add: digit_inert)
    moreover have "[d] \<noteq> []" by simp
    ultimately show ?thesis by blast
  next
    case False
    with a Cons d have r: "r = dropWhile is_digit t" by (simp add: lex_int_def)
    have "cs = (d # takeWhile is_digit t) @ r" using Cons r by simp
    moreover have "list_all inert (d # takeWhile is_digit t)"
      using d by (simp add: digit_inert takeWhile_digit_inert)
    moreover have "d # takeWhile is_digit t \<noteq> []" by simp
    ultimately show ?thesis by blast
  qed
qed

lemma lex_number_inert:
  assumes "lex_number cs = Some (t, r)"
  shows "\<exists>pre. cs = pre @ r \<and> list_all inert pre \<and> pre \<noteq> [] \<and> token_weight t = 0"
proof -
  define r0 where "r0 = (if startsWith cs ''-'' then tl cs else cs)"
  from assms obtain ip r1 fp r2 ex
    where i: "lex_int r0 = Some (ip, r1)" and f: "lex_fraction r1 = Some (fp, r2)"
      and e: "lex_exponent r2 = Some (ex, r)"
      and t: "t = mk_num (startsWith cs ''-'') (ip @ fp) (ex - int (length fp))"
    by (auto simp: lex_number_def Let_def r0_def split: option.splits)
  have "\<exists>p0. cs = p0 @ r0 \<and> list_all inert p0"
  proof (cases "startsWith cs ''-''")
    case True
    then have "cs = ''-'' @ r0" by (cases cs) (auto simp: startsWith_def r0_def)
    moreover have "list_all inert ''-''" by (simp add: inert_def)
    ultimately show ?thesis by blast
  next
    case False
    then have "cs = [] @ r0" by (simp add: r0_def)
    then show ?thesis by (intro exI [of _ "[]"]) simp
  qed
  then obtain p0 where p0: "cs = p0 @ r0" "list_all inert p0" by blast
  from lex_int_inert [OF i] obtain p1 where p1: "r0 = p1 @ r1" "list_all inert p1" "p1 \<noteq> []"
    by blast
  from lex_fraction_inert [OF f] obtain p2 where p2: "r1 = p2 @ r2" "list_all inert p2" by blast
  from lex_exponent_inert [OF e] obtain p3 where p3: "r2 = p3 @ r" "list_all inert p3" by blast
  have "cs = (p0 @ p1 @ p2 @ p3) @ r" using p0(1) p1(1) p2(1) p3(1) by simp
  moreover have "list_all inert (p0 @ p1 @ p2 @ p3)" using p0(2) p1(2) p2(2) p3(2) by simp
  moreover have "p0 @ p1 @ p2 @ p3 \<noteq> []" using p1(3) by simp
  moreover have "token_weight t = 0" unfolding t by (simp add: mk_num_def Let_def)
  ultimately show ?thesis by blast
qed

lemma literal_text:
  assumes "startsWith (c # cs) lit" "lit \<noteq> []"
  shows "c # cs = lit @ drop (length lit - 1) cs"
proof -
  from assms(1) have t: "take (length lit) (c # cs) = lit" by (simp add: startsWith_def)
  from assms(2) obtain l ls where lit: "lit = l # ls" by (cases lit) auto
  with t have "c = l" and "take (length ls) cs = ls" by simp_all
  then have "c # cs = (l # ls) @ drop (length ls) cs"
    by (metis append_Cons append_take_drop_id)
  then show ?thesis by (simp add: lit)
qed

lemma brace_weight_Cons: "brace_weight (t # ts) = token_weight t + brace_weight ts"
  by (simp add: brace_weight_def)

lemma cons_tok_Some: "cons_tok t r = Some ts \<Longrightarrow> \<exists>ts'. r = Some ts' \<and> ts = t # ts'"
  by (cases r) (auto simp: cons_tok_def)

lemma tokenize_punct:
  assumes "\<not> json_ws c"
  shows "c = CHR ''{'' \<Longrightarrow> tokenize (c # cs) = cons_tok TLBrace (tokenize cs)"
    and "c = CHR ''}'' \<Longrightarrow> tokenize (c # cs) = cons_tok TRBrace (tokenize cs)"
    and "c = CHR ''['' \<Longrightarrow> tokenize (c # cs) = cons_tok TLBrack (tokenize cs)"
    and "c = CHR '']'' \<Longrightarrow> tokenize (c # cs) = cons_tok TRBrack (tokenize cs)"
    and "c = CHR '':'' \<Longrightarrow> tokenize (c # cs) = cons_tok TColon (tokenize cs)"
    and "c = CHR '','' \<Longrightarrow> tokenize (c # cs) = cons_tok TComma (tokenize cs)"
    and "c = CHR 0x22 \<Longrightarrow> tokenize (c # cs) =
           (case lex_string cs of None \<Rightarrow> None | Some (s, rest) \<Rightarrow> cons_tok (TStr s) (tokenize rest))"
  using assms by simp_all

lemma tokenize_other:
  assumes "\<not> json_ws c" "c \<noteq> CHR ''{''" "c \<noteq> CHR ''}''" "c \<noteq> CHR ''[''" "c \<noteq> CHR '']''"
    "c \<noteq> CHR '':''" "c \<noteq> CHR '',''" "c \<noteq> CHR 0x22"
  shows "c = CHR ''-'' \<or> is_digit c \<Longrightarrow> tokenize (c # cs) =
           (case lex_number (c # cs) of None \<Rightarrow> None | Some (t, rest) \<Rightarrow> cons_tok t (tokenize rest))"
    and "\<not> (c = CHR ''-'' \<or> is_digit c) \<Longrightarrow> tokenize (c # cs) =
           (if startsWith (c # cs) ''true'' then cons_tok TTrue (tokenize (drop 3 cs))
            else if startsWith (c # cs) ''false'' then cons_tok TFalse (tokenize (drop 4 cs))
            else if startsWith (c # cs) ''null'' then cons_tok TNull (tokenize (drop 3 cs))
            else None)"
  using assms by (simp_all only: tokenize.simps if_False if_True)

lemma token_text_inert:
  assumes "list_all inert pre" "pre \<noteq> []" "token_weight t = 0"
  shows "token_text pre t"
proof -
  have "list_all inert (take j pre)" for j
    using assms(1) by (auto simp: list_all_iff dest: in_set_takeD)
  then have "snd (foldl brace_step (False, n) (take j pre)) = n" for n j
    by (simp add: foldl_inert)
  with assms show ?thesis by (simp add: token_text_def foldl_inert)
qed

lemma token_text_brace:
  "token_text ''{'' TLBrace" "token_text ''}'' TRBrace"
  by (simp_all add: token_text_def brace_step_def)

lemma token_text_string:
  assumes "CHR 0x22 \<notin> set body"
  shows "token_text (CHR 0x22 # body @ [CHR 0x22]) (TStr s)"
proof -
  have w: "foldl brace_step (False, n) (CHR 0x22 # body @ [CHR 0x22]) = (False, n)" for n
    using in_string [OF assms] by (simp add: brace_step_def)
  have p: "snd (foldl brace_step (False, n) (take j (CHR 0x22 # body @ [CHR 0x22]))) = n"
    if "j < length (CHR 0x22 # body @ [CHR 0x22])" for n j
  proof (cases j)
    case 0
    then show ?thesis by simp
  next
    case (Suc j')
    with that have le: "j' \<le> length body" by simp
    have "CHR 0x22 \<notin> set (take j' body)" using assms by (auto dest: in_set_takeD)
    from in_string [OF this] le show ?thesis by (simp add: Suc brace_step_def)
  qed
  show ?thesis unfolding token_text_def using w p by simp
qed

lemma tokenize_first:
  assumes "CHR 0x5C \<notin> set cs" "tokenize (c # cs) = Some ts" "\<not> json_ws c"
  shows "\<exists>pre rest t ts'. c # cs = pre @ rest \<and> token_text pre t \<and>
           tokenize rest = Some ts' \<and> ts = t # ts'"
proof -
  note tk = assms(2)
  have found: ?thesis
    if "c # cs = pre @ rest" "token_text pre t" "cons_tok t (tokenize rest) = Some ts"
    for pre rest t
  proof -
    from cons_tok_Some [OF that(3)] obtain ts' where "tokenize rest = Some ts'" "ts = t # ts'"
      by blast
    with that(1,2) show ?thesis by blast
  qed
  have single: ?thesis if "tokenize (c # cs) = cons_tok t (tokenize cs)" "token_text [c] t" for t
    by (rule found [of "[c]" cs t]) (use that tk in simp_all)
  have plain: "token_text [c] t" if "inert c" "token_weight t = 0" for t
    by (rule token_text_inert) (use that in simp_all)
  consider (lbrace) "c = CHR ''{''"
    | (rbrace) "c = CHR ''}''"
    | (lbrack) "c = CHR ''[''"
    | (rbrack) "c = CHR '']''"
    | (colon) "c = CHR '':''"
    | (comma) "c = CHR '',''"
    | (str) "c = CHR 0x22"
    | (other) "c \<noteq> CHR ''{''" "c \<noteq> CHR ''}''" "c \<noteq> CHR ''[''" "c \<noteq> CHR '']''"
        "c \<noteq> CHR '':''" "c \<noteq> CHR '',''" "c \<noteq> CHR 0x22"
    by blast
  then show ?thesis
  proof cases
    case lbrace
    show ?thesis
      by (rule single [OF tokenize_punct(1) [OF assms(3) lbrace]]) (simp add: lbrace token_text_brace)
  next
    case rbrace
    show ?thesis
      by (rule single [OF tokenize_punct(2) [OF assms(3) rbrace]]) (simp add: rbrace token_text_brace)
  next
    case lbrack
    show ?thesis
      by (rule single [OF tokenize_punct(3) [OF assms(3) lbrack]], rule plain)
        (simp_all add: lbrack inert_def)
  next
    case rbrack
    show ?thesis
      by (rule single [OF tokenize_punct(4) [OF assms(3) rbrack]], rule plain)
        (simp_all add: rbrack inert_def)
  next
    case colon
    show ?thesis
      by (rule single [OF tokenize_punct(5) [OF assms(3) colon]], rule plain)
        (simp_all add: colon inert_def)
  next
    case comma
    show ?thesis
      by (rule single [OF tokenize_punct(6) [OF assms(3) comma]], rule plain)
        (simp_all add: comma inert_def)
  next
    case str
    from tk tokenize_punct(7) [OF assms(3) str] obtain s rest
      where l: "lex_string cs = Some (s, rest)"
        and ts: "cons_tok (TStr s) (tokenize rest) = Some ts"
      by (auto split: option.splits)
    from lex_string_plain [OF assms(1) l] obtain body where b: "cs = body @ CHR 0x22 # rest"
      "CHR 0x22 \<notin> set body" by blast
    show ?thesis
      by (rule found [of "CHR 0x22 # body @ [CHR 0x22]" rest "TStr s"])
        (use b str ts token_text_string in simp_all)
  next
    case other
    show ?thesis
    proof (cases "c = CHR ''-'' \<or> is_digit c")
      case True
      from tk tokenize_other(1) [OF assms(3) other True] obtain t rest
        where l: "lex_number (c # cs) = Some (t, rest)"
          and ts: "cons_tok t (tokenize rest) = Some ts"
        by (auto split: option.splits)
      from lex_number_inert [OF l] obtain pre where p: "c # cs = pre @ rest" "list_all inert pre"
        "pre \<noteq> []" "token_weight t = 0" by blast
      show ?thesis
        by (rule found [OF p(1) token_text_inert [OF p(2,3,4)] ts])
    next
      case False
      note eq = tokenize_other(2) [OF assms(3) other False, of cs]
      have literal: ?thesis
        if "startsWith (c # cs) lit" "list_all inert lit" "lit \<noteq> []" "token_weight t = 0"
          "cons_tok t (tokenize (drop (length lit - 1) cs)) = Some ts" for lit t
        by (rule found [OF literal_text [OF that(1,3)] token_text_inert [OF that(2,3,4)] that(5)])
      consider (t) "startsWith (c # cs) ''true''"
        | (f) "\<not> startsWith (c # cs) ''true''" "startsWith (c # cs) ''false''"
        | (n) "\<not> startsWith (c # cs) ''true''" "\<not> startsWith (c # cs) ''false''"
            "startsWith (c # cs) ''null''"
        | (none) "\<not> startsWith (c # cs) ''true''" "\<not> startsWith (c # cs) ''false''"
            "\<not> startsWith (c # cs) ''null''"
        by blast
      then show ?thesis
      proof cases
        case t
        from tk have "cons_tok TTrue (tokenize (drop 3 cs)) = Some ts"
          unfolding eq using t by (simp only: if_True)
        then show ?thesis
          by (intro literal [OF t, of TTrue]) (simp_all add: inert_def eval_nat_numeral)
      next
        case f
        from tk have "cons_tok TFalse (tokenize (drop 4 cs)) = Some ts"
          unfolding eq using f by (simp only: if_True if_False)
        then show ?thesis
          by (intro literal [OF f(2), of TFalse]) (simp_all add: inert_def eval_nat_numeral)
      next
        case n
        from tk have "cons_tok TNull (tokenize (drop 3 cs)) = Some ts"
          unfolding eq using n by (simp only: if_True if_False)
        then show ?thesis
          by (intro literal [OF n(3), of TNull]) (simp_all add: inert_def eval_nat_numeral)
      next
        case none
        from tk have "None = Some ts"
          unfolding eq using none by (simp only: if_False)
        then show ?thesis by simp
      qed
    qed
  qed
qed

lemma tokenize_ws: "json_ws c \<Longrightarrow> tokenize (c # cs) = tokenize cs"
  by simp

lemma tokenize_braces:
  "CHR 0x5C \<notin> set cs \<Longrightarrow> tokenize cs = Some ts \<Longrightarrow>
   foldl brace_step (False, n) cs = (False, n + brace_weight ts)"
proof (induction "length cs" arbitrary: cs ts n rule: less_induct)
  case less
  show ?case
  proof (cases cs)
    case Nil
    with less.prems show ?thesis by (simp add: brace_weight_def)
  next
    case (Cons c cs')
    from less.prems(1) Cons have nb: "CHR 0x5C \<notin> set cs'" by simp
    show ?thesis
    proof (cases "json_ws c")
      case True
      with less.prems(2) Cons have "tokenize cs' = Some ts" by (simp only: tokenize_ws)
      from less.hyps [OF _ nb this, of n] Cons ws_inert [OF True] show ?thesis
        by (simp add: brace_inert)
    next
      case False
      from tokenize_first [OF nb _ False] less.prems(2) Cons obtain pre rest t ts'
        where d: "cs = pre @ rest" "token_text pre t" "tokenize rest = Some ts'" "ts = t # ts'"
        by metis
      from d(2) have p: "pre \<noteq> []"
        "foldl brace_step (False, n) pre = (False, n + token_weight t)"
        by (simp_all add: token_text_def)
      have l: "length rest < length cs" using d(1) p(1) by simp
      have nbr: "CHR 0x5C \<notin> set rest" using less.prems(1) d(1) by simp
      from less.hyps [OF l nbr d(3), of "n + token_weight t"] p(2) show ?thesis
        by (simp add: d(1,4) brace_weight_Cons)
    qed
  qed
qed

lemma tokenize_blank:
  assumes "CHR 0x5C \<notin> set cs" "tokenize cs = Some []"
  shows "list_all json_ws cs"
  using assms
proof (induction cs)
  case Nil
  then show ?case by simp
next
  case (Cons c cs)
  from Cons.prems(1) have nb: "CHR 0x5C \<notin> set cs" by simp
  show ?case
  proof (cases "json_ws c")
    case True
    with Cons.prems(2) have "tokenize cs = Some []" by (simp only: tokenize_ws)
    with Cons.IH [OF nb] True show ?thesis by simp
  next
    case False
    from tokenize_first [OF nb Cons.prems(2) False] show ?thesis by simp
  qed
qed

lemma tokenize_prefix:
  "CHR 0x5C \<notin> set cs \<Longrightarrow> tokenize cs = Some ts \<Longrightarrow> j \<le> length cs \<Longrightarrow>
   \<exists>i\<le>length ts.
     snd (foldl brace_step (False, n) (take j cs)) = n + brace_weight (take i ts) \<and>
     (i = length ts \<longrightarrow> tokenize (drop j cs) = Some [])"
proof (induction "length cs" arbitrary: cs ts j n rule: less_induct)
  case less
  have start: ?case if "j = 0"
    using that less.prems(2)
    by (intro exI [of _ 0]) (auto simp: brace_weight_def)
  show ?case
  proof (cases cs)
    case Nil
    with less.prems(3) show ?thesis by (intro start) simp
  next
    case (Cons c cs')
    from less.prems(1) Cons have nb: "CHR 0x5C \<notin> set cs'" by simp
    show ?thesis
    proof (cases "json_ws c")
      case True
      with less.prems(2) Cons have tk: "tokenize cs' = Some ts" by (simp only: tokenize_ws)
      show ?thesis
      proof (cases j)
        case 0
        then show ?thesis by (rule start)
      next
        case (Suc j')
        with less.prems(3) Cons have "j' \<le> length cs'" by simp
        from less.hyps [OF _ nb tk this, of n] Cons obtain i where i: "i \<le> length ts"
          "snd (foldl brace_step (False, n) (take j' cs')) = n + brace_weight (take i ts)"
          "i = length ts \<longrightarrow> tokenize (drop j' cs') = Some []"
          by auto
        have "foldl brace_step (False, n) (take j cs) = foldl brace_step (False, n) (take j' cs')"
          using ws_inert [OF True] by (simp add: Suc Cons brace_inert)
        moreover have "drop j cs = drop j' cs'" by (simp add: Suc Cons)
        ultimately show ?thesis using i by auto
      qed
    next
      case False
      from tokenize_first [OF nb _ False] less.prems(2) Cons obtain pre rest t ts'
        where d: "cs = pre @ rest" "token_text pre t" "tokenize rest = Some ts'" "ts = t # ts'"
        by metis
      from d(2) have p: "pre \<noteq> []"
        "foldl brace_step (False, n) pre = (False, n + token_weight t)"
        "\<And>j. j < length pre \<Longrightarrow> snd (foldl brace_step (False, n) (take j pre)) = n"
        by (simp_all add: token_text_def)
      show ?thesis
      proof (cases "j < length pre")
        case True
        then have "snd (foldl brace_step (False, n) (take j cs)) = n"
          using p(3) [OF True] by (simp add: d(1))
        then show ?thesis
          by (intro exI [of _ 0]) (simp add: brace_weight_def d(4))
      next
        case False
        define j' where "j' = j - length pre"
        have j': "j' \<le> length rest" using less.prems(3) False by (simp add: j'_def d(1))
        have l: "length rest < length cs" using d(1) p(1) by simp
        have nbr: "CHR 0x5C \<notin> set rest" using less.prems(1) d(1) by simp
        from less.hyps [OF l nbr d(3) j', of "n + token_weight t"] obtain i
          where i: "i \<le> length ts'"
            "snd (foldl brace_step (False, n + token_weight t) (take j' rest)) =
               n + token_weight t + brace_weight (take i ts')"
            "i = length ts' \<longrightarrow> tokenize (drop j' rest) = Some []"
          by auto
        have "take j cs = pre @ take j' rest" using False by (simp add: d(1) j'_def)
        then have "snd (foldl brace_step (False, n) (take j cs)) =
            n + brace_weight (take (Suc i) ts)"
          using p(2) i(2) by (simp add: d(4) brace_weight_Cons)
        moreover have "drop j cs = drop j' rest" using False by (simp add: d(1) j'_def)
        ultimately show ?thesis
          using i(1,3) by (intro exI [of _ "Suc i"]) (simp add: d(4))
      qed
    qed
  qed
qed

lemma attach_frames:
  "attach v st = (m, st') \<Longrightarrow> object_frames st' = object_frames st \<and> settled_mode m st'"
  by (cases "(v, st)" rule: attach.cases) (auto simp: settled_mode_def)

lemma value_token_frames:
  "value_token t st = Some (m, st') \<Longrightarrow>
   object_frames st' = object_frames st + token_weight t \<and> settled_mode m st'"
  by (cases "(t, st)" rule: value_token.cases)
    (auto dest: attach_frames simp: settled_mode_def)

lemma key_token_frames:
  "key_token t st = Some (m, st') \<Longrightarrow>
   object_frames st' = object_frames st + token_weight t \<and> settled_mode m st'"
  by (cases "(t, st)" rule: key_token.cases) (auto simp: settled_mode_def)

lemma close_token_frames:
  "close_token t st = Some (m, st') \<Longrightarrow>
   object_frames st' = object_frames st + token_weight t \<and> settled_mode m st'"
  by (cases "(t, st)" rule: close_token.cases) (auto dest: attach_frames)

lemma after_token_frames:
  "after_token t st = Some (m, st') \<Longrightarrow>
   object_frames st' = object_frames st + token_weight t \<and> settled_mode m st'"
  by (cases "(t, st)" rule: after_token.cases)
    (auto dest: close_token_frames attach_frames simp: settled_mode_def)

lemma pstep_frames:
  "pstep m st t = Some (m', st') \<Longrightarrow>
   object_frames st' = object_frames st + token_weight t \<and> settled_mode m' st'"
  by (cases m)
    (auto dest: value_token_frames key_token_frames close_token_frames after_token_frames
      simp: settled_mode_def split: if_splits)

lemma prun_frames:
  "prun m st ts = Some v \<Longrightarrow> settled_mode m st \<Longrightarrow> object_frames st + brace_weight ts = 0"
proof (induction ts arbitrary: m st)
  case Nil
  then show ?case by (cases m) (simp_all add: settled_mode_def brace_weight_def)
next
  case (Cons t ts)
  from Cons.prems(1) obtain m' st' where s: "pstep m st t = Some (m', st')"
    and r: "prun m' st' ts = Some v"
    by (auto split: option.splits)
  from pstep_frames [OF s] have f: "object_frames st' = object_frames st + token_weight t"
    and d: "settled_mode m' st'" by simp_all
  from Cons.IH [OF r d] f show ?case by (simp add: brace_weight_Cons)
qed

lemma parse_balanced:
  assumes "JSON_parse s = Some v" "CHR 0x5C \<notin> set s"
  shows "brace_state s = (False, 0)"
proof -
  from assms(1) obtain ts where t: "tokenize s = Some ts" and p: "prun PValue [] ts = Some v"
    by (auto simp: JSON_parse_def split: option.splits)
  from prun_frames [OF p] have "brace_weight ts = 0" by (simp add: settled_mode_def)
  with tokenize_braces [OF assms(2) t, of 0] show ?thesis by (simp add: brace_state_def)
qed


section \<open>An object text closes with its last character\<close>

lemma object_frames_nonneg: "0 \<le> object_frames st"
  by (induction st rule: object_frames.induct) simp_all

lemma rooted_frames: "rooted st \<Longrightarrow> 1 \<le> object_frames st"
proof (induction st rule: object_frames.induct)
  case 1
  then show ?case by (simp add: rooted_def)
next
  case (2 kvs k st)
  from object_frames_nonneg [of st] show ?case by simp
next
  case (3 xs st)
  then show ?case by (cases "st = []") (simp_all add: rooted_def)
qed

lemma rooted_top:
  "rooted (FArr xs # st) \<Longrightarrow> rooted (f # st)"
  "rooted (FObj kvs k # st) \<Longrightarrow> rooted (FObj kvs' k' # st)"
  "rooted st \<Longrightarrow> rooted (f # st)"
  by (auto simp: rooted_def split: if_splits)

lemma rooted_pop: "rooted (f # st) \<Longrightarrow> st = [] \<or> rooted st"
  by (auto simp: rooted_def)

lemma attach_rooted:
  "attach v st = (m, st') \<Longrightarrow> st = [] \<or> rooted st \<Longrightarrow> rooted st' \<or> (\<exists>w. m = PDone w)"
  by (cases "(v, st)" rule: attach.cases) (auto intro: rooted_top)

lemma value_token_rooted:
  "value_token t st = Some (m, st') \<Longrightarrow> rooted st \<Longrightarrow> rooted st' \<or> (\<exists>w. m = PDone w)"
  by (cases "(t, st)" rule: value_token.cases) (auto dest: attach_rooted intro: rooted_top)

lemma key_token_rooted:
  "key_token t st = Some (m, st') \<Longrightarrow> rooted st \<Longrightarrow> rooted st'"
  by (cases "(t, st)" rule: key_token.cases) (auto intro: rooted_top)

lemma close_token_rooted:
  "close_token t st = Some (m, st') \<Longrightarrow> rooted st \<Longrightarrow> rooted st' \<or> (\<exists>w. m = PDone w)"
  by (cases "(t, st)" rule: close_token.cases) (auto dest: rooted_pop attach_rooted)

lemma after_token_rooted:
  "after_token t st = Some (m, st') \<Longrightarrow> rooted st \<Longrightarrow> rooted st' \<or> (\<exists>w. m = PDone w)"
  by (cases "(t, st)" rule: after_token.cases)
    (auto dest: close_token_rooted rooted_pop attach_rooted)

lemma pstep_rooted:
  "pstep m st t = Some (m', st') \<Longrightarrow> rooted st \<Longrightarrow> rooted st' \<or> (\<exists>w. m' = PDone w)"
  by (cases m)
    (auto dest: value_token_rooted key_token_rooted close_token_rooted after_token_rooted
      split: if_splits)

lemma prun_interior:
  "prun m st ts = Some v \<Longrightarrow> rooted st \<Longrightarrow> i < length ts \<Longrightarrow>
   1 \<le> object_frames st + brace_weight (take i ts)"
proof (induction ts arbitrary: m st i)
  case Nil
  then show ?case by simp
next
  case (Cons t ts)
  from Cons.prems(1) obtain m' st' where s: "pstep m st t = Some (m', st')"
    and r: "prun m' st' ts = Some v"
    by (auto split: option.splits)
  show ?case
  proof (cases i)
    case 0
    with rooted_frames [OF Cons.prems(2)] show ?thesis by (simp add: brace_weight_def)
  next
    case (Suc i')
    with Cons.prems(3) have i': "i' < length ts" by simp
    then obtain u us where ts: "ts = u # us" by (cases ts) auto
    have "\<not> (\<exists>w. m' = PDone w)"
      using r by (auto simp: ts)
    with pstep_rooted [OF s Cons.prems(2)] have ro: "rooted st'" by simp
    from pstep_frames [OF s] have f: "object_frames st' = object_frames st + token_weight t"
      by simp
    from Cons.IH [OF r ro i'] f show ?thesis by (simp add: Suc brace_weight_Cons)
  qed
qed

lemma endsWith_last: "endsWith s [c] \<Longrightarrow> s \<noteq> [] \<and> last s = c"
  by (cases s rule: rev_cases) (auto simp: endsWith_def startsWith_def)

lemma parse_interior:
  assumes "JSON_parse s = Some v" "CHR 0x5C \<notin> set s" "startsWith s ''{''" "endsWith s ''}''"
    and "1 \<le> j" "j < length s"
  shows "1 \<le> snd (brace_state (take j s))"
proof -
  from assms(3) obtain cs where s: "s = CHR ''{'' # cs"
    by (cases s) (auto simp: startsWith_def)
  from assms(5) obtain j' where j: "j = Suc j'" by (cases j) auto
  have ws: "\<not> json_ws (CHR ''{'')" by (simp add: json_ws_def)
  from assms(1) obtain ts where t: "tokenize s = Some ts" and p: "prun PValue [] ts = Some v"
    by (auto simp: JSON_parse_def split: option.splits)
  have "tokenize s = cons_tok TLBrace (tokenize cs)"
    unfolding s by (rule tokenize_punct(1) [OF ws refl])
  with t have "cons_tok TLBrace (tokenize cs) = Some ts" by simp
  from cons_tok_Some [OF this] obtain ts'
    where ts: "tokenize cs = Some ts'" "ts = TLBrace # ts'"
    by blast
  from p have r: "prun PKeyOrEnd [FObj [] []] ts' = Some v" by (simp add: ts(2))
  have ro: "rooted [FObj [] []]" by (simp add: rooted_def)
  have nb: "CHR 0x5C \<notin> set cs" using assms(2) s by simp
  have le: "j' \<le> length cs" using assms(6) s j by simp
  from tokenize_prefix [OF nb ts(1) le, of 1] obtain i where i: "i \<le> length ts'"
    "snd (foldl brace_step (False, 1) (take j' cs)) = 1 + brace_weight (take i ts')"
    "i = length ts' \<longrightarrow> tokenize (drop j' cs) = Some []"
    by auto
  have "i \<noteq> length ts'"
  proof
    assume "i = length ts'"
    with i(3) have b: "tokenize (drop j' cs) = Some []" by simp
    have "CHR 0x5C \<notin> set (drop j' cs)" using nb by (auto dest: in_set_dropD)
    from tokenize_blank [OF this b] have a: "list_all json_ws (drop j' cs)" .
    have ne: "drop j' cs \<noteq> []" using assms(6) s j by simp
    from endsWith_last [OF assms(4)] have "last s = CHR ''}''" by simp
    moreover have "last s = last (drop j' cs)"
    proof -
      from ne have l: "j' < length cs" by simp
      then have "cs \<noteq> []" by auto
      then have "last s = last cs" by (simp add: s)
      with l show ?thesis by (simp add: last_drop)
    qed
    ultimately have "last (drop j' cs) = CHR ''}''" by simp
    with last_in_set [OF ne] have "CHR ''}'' \<in> set (drop j' cs)" by simp
    with a have "json_ws (CHR ''}'')" by (simp add: list_all_iff)
    then show False by (simp add: json_ws_def)
  qed
  with i(1) have "i < length ts'" by simp
  from prun_interior [OF r ro this] i(2) show ?thesis
    by (simp add: brace_state_def s j brace_step_def)
qed

lemma record_balanced:
  assumes "record_text obj"
  shows "balanced_object obj"
proof -
  from assms obtain session where p: "JSON_parse obj = Some session"
    and nb: "CHR 0x5C \<notin> set obj" and b: "startsWith obj ''{''" and e: "endsWith obj ''}''"
    by (auto simp: record_text_def split: option.splits)
  have "1 \<le> snd (brace_state (take j obj))" if "j \<in> set [1..<length obj]" for j
    using that by (intro parse_interior [OF p nb b e]) simp_all
  with b parse_balanced [OF p nb] show ?thesis
    by (simp add: balanced_object_def list_all_iff)
qed

lemma record_plain: "record_text obj \<Longrightarrow> CHR 0x5C \<notin> set obj"
  by (simp add: record_text_def)

section \<open>The scan over records\<close>

lemma trim_framed:
  assumes "s \<noteq> []" "\<not> js_space (hd s)" "\<not> js_space (last s)"
  shows "trim s = s"
proof -
  have 1: "dropWhile js_space s = s"
    using assms(1,2) by (simp add: dropWhile_eq_self_iff)
  have "rev s \<noteq> []" "hd (rev s) = last s" using assms(1) by (simp_all add: hd_rev)
  then have 2: "dropWhile js_space (rev s) = rev s"
    using assms(3) by (simp add: dropWhile_eq_self_iff)
  show ?thesis by (simp add: trim_def 1 2)
qed

lemma scan_first:
  assumes "neutral st"
  shows "scan_step st (CHR ''{'') = st\<lparr>currentObject := ''{'', braceCount := 1\<rparr>"
  using assms by (cases st) (simp add: neutral_def scan_step_def scan_brace_def Let_def)

lemma scan_filler:
  assumes "neutral st" "filler c"
  shows "scan_step st c = st"
  using assms
  by (cases st) (auto simp: neutral_def filler_def json_ws_def scan_step_def scan_brace_def Let_def)

lemma scan_fillers:
  "neutral st \<Longrightarrow> list_all filler g \<Longrightarrow> foldl scan_step st g = st"
  by (induction g) (simp_all add: scan_filler)

lemma scan_open:
  assumes "\<not> escapeNext S" "c \<noteq> CHR 0x5C" "1 \<le> braceCount S"
    and "1 \<le> snd (brace_step (inString S, braceCount S) c)"
  shows "scan_step S c =
           S\<lparr>currentObject := currentObject S @ [c],
             braceCount := snd (brace_step (inString S, braceCount S) c),
             inString := fst (brace_step (inString S, braceCount S) c)\<rparr>"
  using assms
  by (cases S) (auto simp: scan_step_def scan_brace_def brace_step_def Let_def split: if_splits)

lemma scan_close:
  assumes "\<not> escapeNext S" "c \<noteq> CHR 0x5C" "1 \<le> braceCount S"
    and "brace_step (inString S, braceCount S) c = (False, 0)"
  shows "c = CHR ''}'' \<and>
         scan_step S c =
           S\<lparr>currentObject := [], braceCount := 0, inString := False,
             sessionObjects :=
               (if trim (currentObject S @ [c]) \<noteq> []
                then sessionObjects S @ [trim (currentObject S @ [c])] else sessionObjects S)\<rparr>"
  using assms
  by (cases S) (auto simp: scan_step_def scan_brace_def brace_step_def Let_def split: if_splits)

lemma brace_state_snoc: "brace_state (s @ [c]) = brace_step (brace_state s) c"
  by (simp add: brace_state_def)

lemma balanced_inside:
  assumes "balanced_object obj" "1 \<le> j" "j < length obj"
  shows "1 \<le> snd (brace_state (take j obj))"
  using assms by (simp add: balanced_object_def list_all_iff)

lemma balanced_hd:
  assumes "balanced_object obj"
  shows "obj \<noteq> [] \<and> hd obj = CHR ''{'' \<and> 2 \<le> length obj"
proof -
  from assms have s: "startsWith obj ''{''" and e: "brace_state obj = (False, 0)"
    by (simp_all add: balanced_object_def)
  from s obtain t where o: "obj = CHR ''{'' # t"
    by (cases obj) (auto simp: startsWith_def)
  have "t \<noteq> []"
  proof
    assume "t = []"
    with o e show False by (simp add: brace_state_def brace_step_def)
  qed
  with o show ?thesis by (cases t) simp_all
qed

lemma scan_prefix:
  assumes "neutral st" "balanced_object obj" "CHR 0x5C \<notin> set obj"
  shows "1 \<le> j \<Longrightarrow> j < length obj \<Longrightarrow>
         foldl scan_step st (take j obj) =
           st\<lparr>currentObject := take j obj,
              braceCount := snd (brace_state (take j obj)),
              inString := fst (brace_state (take j obj))\<rparr>"
proof (induction j)
  case 0
  then show ?case by simp
next
  case (Suc j)
  from balanced_hd [OF assms(2)] obtain t where o: "obj = CHR ''{'' # t"
    by (cases obj) auto
  show ?case
  proof (cases "j = 0")
    case True
    have "take (Suc 0) obj = ''{''" using o by simp
    with True scan_first [OF assms(1)] assms(1) show ?thesis
      by (cases st) (simp add: brace_state_def brace_step_def neutral_def)
  next
    case False
    then have j: "1 \<le> j" "j < length obj" using Suc.prems by simp_all
    let ?p = "take j obj"
    let ?c = "obj ! j"
    let ?S = "st\<lparr>currentObject := ?p, braceCount := snd (brace_state ?p),
                 inString := fst (brace_state ?p)\<rparr>"
    have t: "take (Suc j) obj = ?p @ [?c]"
      using j(2) by (simp add: take_Suc_conv_app_nth)
    have ih: "foldl scan_step st ?p = ?S" by (rule Suc.IH [OF j])
    have e: "\<not> escapeNext ?S" using assms(1) by (simp add: neutral_def)
    have c: "?c \<noteq> CHR 0x5C" using assms(3) j(2) by (metis nth_mem)
    have d: "1 \<le> braceCount ?S" using balanced_inside [OF assms(2) j] by simp
    have b: "brace_step (inString ?S, braceCount ?S) ?c = brace_state (take (Suc j) obj)"
      unfolding t brace_state_snoc by simp
    have d': "1 \<le> snd (brace_step (inString ?S, braceCount ?S) ?c)"
      unfolding b using balanced_inside [OF assms(2) _ Suc.prems(2)] by simp
    have "foldl scan_step st (take (Suc j) obj) = scan_step ?S ?c"
      unfolding t using ih by simp
    also have "\<dots> = ?S\<lparr>currentObject := currentObject ?S @ [?c],
             braceCount := snd (brace_step (inString ?S, braceCount ?S) ?c),
             inString := fst (brace_step (inString ?S, braceCount ?S) ?c)\<rparr>"
      by (rule scan_open [OF e c d d'])
    also have "\<dots> = st\<lparr>currentObject := take (Suc j) obj,
              braceCount := snd (brace_state (take (Suc j) obj)),
              inString := fst (brace_state (take (Suc j) obj))\<rparr>"
      unfolding b by (simp add: t)
    finally show ?thesis .
  qed
qed

lemma scan_record:
  assumes "neutral st" "balanced_object obj" "CHR 0x5C \<notin> set obj"
  shows "foldl scan_step st obj = st\<lparr>sessionObjects := sessionObjects st @ [obj]\<rparr>"
proof -
  from balanced_hd [OF assms(2)] have ne: "obj \<noteq> []" and h: "hd obj = CHR ''{''"
    and l: "2 \<le> length obj" by simp_all
  define j where "j = length obj - 1"
  have j: "1 \<le> j" "j < length obj" using l by (simp_all add: j_def)
  let ?p = "take j obj"
  let ?c = "obj ! j"
  let ?S = "st\<lparr>currentObject := ?p, braceCount := snd (brace_state ?p),
               inString := fst (brace_state ?p)\<rparr>"
  have o: "obj = ?p @ [?c]"
    using j(2) take_Suc_conv_app_nth [OF j(2)] by (simp add: j_def)
  have ih: "foldl scan_step st ?p = ?S" by (rule scan_prefix [OF assms j])
  have e: "\<not> escapeNext ?S" using assms(1) by (simp add: neutral_def)
  have c: "?c \<noteq> CHR 0x5C" using assms(3) j(2) by (metis nth_mem)
  have d: "1 \<le> braceCount ?S" using balanced_inside [OF assms(2) j] by simp
  have "brace_state obj = brace_step (brace_state ?p) ?c"
    using o brace_state_snoc [of ?p ?c] by simp
  then have b: "brace_step (inString ?S, braceCount ?S) ?c = (False, 0)"
    using assms(2) by (simp add: balanced_object_def)
  note sc = scan_close [OF e c d b]
  note cb = sc [THEN conjunct1] and s = sc [THEN conjunct2]
  have "last obj = CHR ''}''" using o cb by (metis last_snoc)
  with ne h have tr: "trim obj = obj"
    by (intro trim_framed) (simp_all add: js_space_def)
  have cur: "currentObject ?S @ [?c] = obj" using o by simp
  have "foldl scan_step st obj = scan_step ?S ?c"
    using ih by (subst o) simp
  also have "\<dots> = ?S\<lparr>currentObject := [], braceCount := 0, inString := False,
             sessionObjects := sessionObjects st @ [obj]\<rparr>"
    unfolding s cur tr using ne by simp
  also have "\<dots> = st\<lparr>sessionObjects := sessionObjects st @ [obj]\<rparr>"
    using assms(1) by (cases st) (simp add: neutral_def)
  finally show ?thesis .
qed

lemma scan_truncated:
  assumes "neutral st" "balanced_object obj" "CHR 0x5C \<notin> set obj" "j < length obj"
  shows "sessionObjects (foldl scan_step st (take j obj)) = sessionObjects st"
proof (cases "j = 0")
  case True
  then show ?thesis by simp
next
  case False
  then have "1 \<le> j" by simp
  from scan_prefix [OF assms(1,2,3) this assms(4)] show ?thesis by simp
qed

lemma neutral_pushed: "neutral st \<Longrightarrow> neutral (st\<lparr>sessionObjects := xs\<rparr>)"
  by (simp add: neutral_def)

lemma scan_elements:
  assumes "neutral st" "list_all element_text elems"
  shows "foldl scan_step st (array_text elems) =
           st\<lparr>sessionObjects := sessionObjects st @ map snd elems\<rparr>"
  using assms
proof (induction elems arbitrary: st)
  case Nil
  then show ?case by (simp add: array_text_def)
next
  case (Cons e elems)
  from Cons.prems(2) have h: "element_text e" and es: "list_all element_text elems"
    by simp_all
  from h have g: "list_all filler (fst e)" and rt: "record_text (snd e)"
    by (simp_all add: element_text_def)
  note r = record_balanced [OF rt] record_plain [OF rt]
  let ?st = "st\<lparr>sessionObjects := sessionObjects st @ [snd e]\<rparr>"
  have n: "neutral ?st" by (rule neutral_pushed [OF Cons.prems(1)])
  have "foldl scan_step st (array_text (e # elems)) =
          foldl scan_step (foldl scan_step (foldl scan_step st (fst e)) (snd e)) (array_text elems)"
    by (simp add: array_text_def)
  also have "\<dots> = foldl scan_step ?st (array_text elems)"
    using scan_fillers [OF Cons.prems(1) g] scan_record [OF Cons.prems(1) r] by simp
  also have "\<dots> = ?st\<lparr>sessionObjects := sessionObjects ?st @ map snd elems\<rparr>"
    by (rule Cons.IH [OF n es])
  finally show ?case by simp
qed

section \<open>Cleaning a truncated array\<close>

lemma strip_trailing_rev_dropWhile: "strip_trailing_rev s = dropWhile (\<lambda>c. \<not> json_ender c) s"
  by (induction s) simp_all

lemma strip_leading_dropWhile: "strip_leading s = dropWhile (\<lambda>c. \<not> json_starter c) s"
  by (induction s) simp_all

lemma keep_front:
  assumes "ys \<noteq> []" "\<not> P (last ys)"
  shows "\<exists>m. rev (dropWhile P (rev (ys @ xs))) = ys @ take m xs"
proof (cases "\<forall>x\<in>set xs. P x")
  case True
  then have "dropWhile P (rev (ys @ xs)) = dropWhile P (rev ys)"
    by (simp add: dropWhile_append)
  also have "\<dots> = rev ys" using assms by (cases ys rule: rev_cases) simp_all
  finally have "rev (dropWhile P (rev (ys @ xs))) = ys @ take 0 xs" by simp
  then show ?thesis ..
next
  case False
  then have "dropWhile P (rev (ys @ xs)) = dropWhile P (rev xs) @ rev ys"
    by (auto simp: dropWhile_append)
  moreover have "dropWhile P (rev xs) = drop (length (takeWhile P (rev xs))) (rev xs)"
    by (rule dropWhile_eq_drop)
  ultimately have "rev (dropWhile P (rev (ys @ xs))) =
      ys @ take (length xs - length (takeWhile P (rev xs))) xs"
    by (simp add: rev_drop)
  then show ?thesis ..
qed

lemma keep_back:
  assumes "ys \<noteq> []" "\<not> P (hd ys)"
  shows "\<exists>a. dropWhile P (g @ ys) = drop a g @ ys"
proof (cases "\<forall>x\<in>set g. P x")
  case True
  then have "dropWhile P (g @ ys) = dropWhile P ys"
    by (simp add: dropWhile_append)
  also have "\<dots> = ys" using assms by (cases ys) simp_all
  finally have "dropWhile P (g @ ys) = drop (length g) g @ ys" by simp
  then show ?thesis ..
next
  case False
  then have "dropWhile P (g @ ys) = dropWhile P g @ ys"
    by (auto simp: dropWhile_append)
  then have "dropWhile P (g @ ys) = drop (length (takeWhile P g)) g @ ys"
    by (simp add: dropWhile_eq_drop)
  then show ?thesis ..
qed

lemma clean_truncated:
  assumes "ys \<noteq> []" "hd ys = CHR ''{''" "last ys = CHR ''}''"
  shows "\<exists>a m. cleanResponse (g @ ys @ xs) = drop a g @ ys @ take m xs"
proof -
  have sp: "\<not> js_space (hd ys)" "\<not> js_space (last ys)"
    using assms(2,3) by (simp_all add: js_space_def)
  have st: "\<not> \<not> json_starter (hd ys)" "\<not> \<not> json_ender (last ys)"
    using assms(2,3) by (simp_all add: json_starter_def json_ender_def)
  have h: "hd (ys @ zs) = hd ys" "ys @ zs \<noteq> []" for zs
    using assms(1) by simp_all
  have l: "last (zs @ ys) = last ys" "zs @ ys \<noteq> []" for zs
    using assms(1) by simp_all
  from keep_back [of "ys @ xs" js_space g] sp(1) h
  obtain a where 1: "dropWhile js_space (g @ ys @ xs) = drop a g @ ys @ xs"
    by auto
  from keep_front [of "drop a g @ ys" js_space xs] sp(2) l
  obtain m where 2: "rev (dropWhile js_space (rev ((drop a g @ ys) @ xs))) =
      (drop a g @ ys) @ take m xs"
    by auto
  have t: "trim (g @ ys @ xs) = drop a g @ ys @ take m xs"
    using 2 by (simp add: trim_def 1)
  from keep_back [of "ys @ take m xs" "\<lambda>c. \<not> json_starter c" "drop a g"] st(1) h
  obtain b where 3: "strip_leading (drop a g @ ys @ take m xs) = drop b (drop a g) @ ys @ take m xs"
    unfolding strip_leading_dropWhile by auto
  from keep_front [of "drop b (drop a g) @ ys" "\<lambda>c. \<not> json_ender c" "take m xs"] st(2) l
  obtain n where 4: "rev (dropWhile (\<lambda>c. \<not> json_ender c)
        (rev ((drop b (drop a g) @ ys) @ take m xs))) =
      (drop b (drop a g) @ ys) @ take n (take m xs)"
    by auto
  have "cleanResponse (g @ ys @ xs) = drop (a + b) g @ ys @ take (min n m) xs"
    unfolding cleanResponse_def t 3 strip_trailing_def strip_trailing_rev_dropWhile
    using 4 by (simp add: add.commute)
  then show ?thesis by blast
qed

section \<open>The shape of a truncated array\<close>

lemma balanced_last:
  assumes "balanced_object obj"
  shows "last obj = CHR ''}''"
proof -
  from balanced_hd [OF assms] have ne: "obj \<noteq> []" and l: "2 \<le> length obj" by simp_all
  define j where "j = length obj - 1"
  have j: "1 \<le> j" "j < length obj" using l by (simp_all add: j_def)
  have o: "obj = take j obj @ [last obj]"
    using ne by (metis append_butlast_last_id butlast_conv_take j_def)
  have d: "1 \<le> snd (brace_state (take j obj))" by (rule balanced_inside [OF assms j])
  have "brace_state obj = brace_step (brace_state (take j obj)) (last obj)"
    using o brace_state_snoc [of "take j obj" "last obj"] by simp
  then have "brace_step (brace_state (take j obj)) (last obj) = (False, 0)"
    using assms by (simp add: balanced_object_def)
  with d show ?thesis
    by (cases "brace_state (take j obj)") (auto simp: brace_step_def Let_def split: if_splits)
qed

lemma filler_plain: "filler c \<Longrightarrow> c \<noteq> CHR 0x5C \<and> inert c"
  by (auto simp: filler_def json_ws_def inert_def)

lemma brace_fillers:
  "list_all filler g \<Longrightarrow> foldl brace_step (False, n) g = (False, n)"
  by (intro foldl_inert) (auto simp: list_all_iff dest: filler_plain)

lemma brace_elements:
  "list_all element_text elems \<Longrightarrow> foldl brace_step (False, 0) (array_text elems) = (False, 0)"
proof (induction elems)
  case Nil
  then show ?case by (simp add: array_text_def)
next
  case (Cons e elems)
  then have h: "element_text e" and es: "list_all element_text elems"
    by simp_all
  from h have g: "list_all filler (fst e)" and rt: "record_text (snd e)"
    by (simp_all add: element_text_def)
  from record_balanced [OF rt] have r: "brace_state (snd e) = (False, 0)"
    by (simp add: balanced_object_def)
  have "foldl brace_step (False, 0) (array_text (e # elems)) =
      foldl brace_step (foldl brace_step (foldl brace_step (False, 0) (fst e)) (snd e))
        (array_text elems)"
    by (simp add: array_text_def)
  also have "\<dots> = foldl brace_step (False, 0) (array_text elems)"
    using brace_fillers [OF g, of 0] r by (simp add: brace_state_def)
  finally show ?case using Cons.IH [OF es] by simp
qed

lemma truncated_unbalanced:
  assumes "list_all element_text elems" "list_all filler gap" "balanced_object nxt"
    and "0 < k" "k < length nxt"
  shows "brace_state (truncated_array elems gap nxt k) \<noteq> (False, 0)"
proof -
  have "1 \<le> snd (brace_state (take k nxt))"
    using balanced_inside [OF assms(3), of k] assms(4,5) by simp
  moreover have "brace_state (truncated_array elems gap nxt k) = brace_state (take k nxt)"
    using brace_elements [OF assms(1)] brace_fillers [OF assms(2), of 0]
    by (simp add: truncated_array_def brace_state_def)
  ultimately show ?thesis by auto
qed

lemma elements_no_backslash:
  "list_all element_text elems \<Longrightarrow> CHR 0x5C \<notin> set (array_text elems)"
  by (induction elems)
    (auto simp: array_text_def element_text_def record_text_def list_all_iff dest: filler_plain)

lemma truncated_no_backslash:
  assumes "list_all element_text elems" "list_all filler gap" "CHR 0x5C \<notin> set nxt"
  shows "CHR 0x5C \<notin> set (truncated_array elems gap nxt k)"
proof -
  have "CHR 0x5C \<notin> set gap"
    using assms(2) by (auto simp: list_all_iff dest: filler_plain)
  moreover have "CHR 0x5C \<notin> set (take k nxt)"
    using assms(3) by (auto dest: in_set_takeD)
  ultimately show ?thesis
    using elements_no_backslash [OF assms(1)] by (simp add: truncated_array_def)
qed

lemma truncated_not_json:
  assumes "list_all element_text elems" "list_all filler gap" "record_text nxt"
    and "0 < k" "k < length nxt"
  shows "JSON_parse (truncated_array elems gap nxt k) = None"
proof (rule ccontr)
  assume "JSON_parse (truncated_array elems gap nxt k) \<noteq> None"
  then obtain v where v: "JSON_parse (truncated_array elems gap nxt k) = Some v" by auto
  note n = record_balanced [OF assms(3)] record_plain [OF assms(3)]
  from parse_balanced [OF v truncated_no_backslash [OF assms(1,2) n(2)]]
    truncated_unbalanced [OF assms(1,2) n(1) assms(4,5)]
  show False by simp
qed

section \<open>The candidates of a truncated array\<close>

lemma neutral_init: "neutral scan_init"
  by (simp add: neutral_def scan_init_def)

lemma array_text_framed:
  assumes "list_all element_text elems"
  shows "elems \<noteq> [] \<Longrightarrow> \<exists>zs. array_text elems = zs @ snd (last elems)"
  by (induction elems) (auto simp: array_text_def)

lemma truncated_candidates:
  assumes "elems \<noteq> []" "list_all element_text elems" "list_all filler gap"
    and "record_text nxt" "k < length nxt"
  shows "scan_objects (cleanResponse (truncated_array elems gap nxt k)) = map snd elems"
proof -
  from assms(1) obtain e es where el: "elems = e # es" by (cases elems) auto
  have h: "element_text e" and es: "list_all element_text es"
    using assms(2) by (simp_all add: el)
  have e: "list_all filler (fst e)" "balanced_object (snd e)"
    using h by (simp_all add: element_text_def record_balanced)
  note n = record_balanced [OF assms(4)] record_plain [OF assms(4)]
  define ys where "ys = snd e @ array_text es"
  define xs where "xs = gap @ take k nxt"
  have p: "truncated_array elems gap nxt k = fst e @ ys @ xs"
    by (simp add: truncated_array_def array_text_def ys_def xs_def el)
  have y1: "ys \<noteq> []" "hd ys = CHR ''{''"
    using balanced_hd [OF e(2)] by (simp_all add: ys_def)
  have "balanced_object (snd (last elems))"
    using assms(1,2) by (simp add: list_all_iff element_text_def record_balanced)
  then have bl: "last (snd (last elems)) = CHR ''}''" "snd (last elems) \<noteq> []"
    using balanced_last balanced_hd by simp_all
  have y2: "last ys = CHR ''}''"
  proof (cases "es = []")
    case True
    then show ?thesis using bl by (simp add: ys_def el array_text_def)
  next
    case False
    from array_text_framed [OF es False] obtain zs
      where "array_text es = zs @ snd (last es)" by auto
    then show ?thesis using bl False by (simp add: ys_def el)
  qed
  from clean_truncated [OF y1 y2, of "fst e" xs] obtain a m
    where c: "cleanResponse (truncated_array elems gap nxt k) = drop a (fst e) @ ys @ take m xs"
    unfolding p by auto
  let ?st = "scan_init\<lparr>sessionObjects := map snd elems\<rparr>"
  have st: "neutral ?st" by (rule neutral_pushed [OF neutral_init])
  have g': "list_all filler (drop a (fst e))"
    using e(1) by (auto simp: list_all_iff dest: in_set_dropD)
  have "element_text (drop a (fst e), snd e)"
    using h g' by (simp add: element_text_def)
  then have el': "list_all element_text ((drop a (fst e), snd e) # es)"
    using es by simp
  have "drop a (fst e) @ ys = array_text ((drop a (fst e), snd e) # es)"
    by (simp add: array_text_def ys_def)
  then have 1: "foldl scan_step scan_init (drop a (fst e) @ ys) = ?st"
    using scan_elements [OF neutral_init el'] by (simp add: scan_init_def el)
  have tk: "take m xs = take m gap @ take (min (m - length gap) k) nxt"
    by (simp add: xs_def)
  have "list_all filler (take m gap)"
    using assms(3) by (auto simp: list_all_iff dest: in_set_takeD)
  then have "foldl scan_step ?st (take m gap) = ?st" by (rule scan_fillers [OF st])
  moreover have "min (m - length gap) k < length nxt" using assms(5) by simp
  ultimately have 2: "sessionObjects (foldl scan_step ?st (take m xs)) = map snd elems"
    unfolding tk using scan_truncated [OF st n, of "min (m - length gap) k"] by simp
  have "foldl scan_step scan_init (drop a (fst e) @ ys @ take m xs) =
          foldl scan_step ?st (take m xs)"
    using 1 by (metis append.assoc foldl_append)
  then show ?thesis
    unfolding scan_objects_def c using 2 by simp
qed

section \<open>The slots of the complete records\<close>

lemma add_record:
  assumes "record_text r"
  shows "add_candidate acc (repair_candidate r) =
           (fst acc @ [slot_of r], set_add (snd acc) (location_of r))"
proof -
  from assms obtain session slot where s: "JSON_parse r = Some session"
    and c: "completeSession session = Some slot" and rp: "repair_candidate r = r"
    by (auto simp: record_text_def split: option.splits)
  have "session \<noteq> JNull"
    using c by (auto simp: completeSession_def get_prop_def)
  then show ?thesis
    by (simp add: add_candidate_def rp s c slot_of_def location_of_def)
qed

lemma add_records:
  "list_all record_text rs \<Longrightarrow>
   foldl add_candidate acc (map repair_candidate rs) =
     (fst acc @ map slot_of rs, foldl set_add (snd acc) (map location_of rs))"
proof (induction rs arbitrary: acc)
  case Nil
  then show ?case by simp
next
  case (Cons r rs)
  then show ?case by (simp add: add_record)
qed

lemma truncated_recovered:
  assumes "elems \<noteq> []" "list_all element_text elems" "list_all filler gap"
    and "record_text nxt" "k < length nxt"
  shows "recovered_sessions (cleanResponse (truncated_array elems gap nxt k)) =
           (map slot_of (map snd elems), new_Set (map location_of (map snd elems)))"
proof -
  have "list_all record_text (map snd elems)"
    using assms(2) by (simp add: list_all_iff element_text_def)
  from add_records [OF this, of "([], [])"] assms(1) show ?thesis
    by (simp add: recovered_sessions_def truncated_candidates [OF assms] new_Set_def)
qed

section \<open>The time range of the complete records\<close>

lemma new_Date_primitive: "is_primitive v \<Longrightarrow> \<exists>d. new_Date dp v = Some d"
  by (cases v) (simp_all add: new_Date_def to_primitive_def is_primitive_def split: json.splits)

lemma or_default_primitive: "primitive_time a \<Longrightarrow> is_primitive (or_default a JNull)"
  by (auto simp: primitive_time_def or_default_def is_primitive_def split: option.splits)

lemma time_item_primitive:
  assumes "item \<noteq> JNull"
    and "\<exists>v. get_prop item ''startTime'' = Some v \<and> is_primitive v"
    and "\<exists>v. get_prop item ''endTime'' = Some v \<and> is_primitive v"
  shows "\<exists>tr'. time_item dp (Some tr) item = Some tr'"
proof -
  from assms(2) obtain a where a: "get_prop item ''startTime'' = Some a" "is_primitive a" by auto
  from assms(3) obtain b where b: "get_prop item ''endTime'' = Some b" "is_primitive b" by auto
  from new_Date_primitive [OF a(2), of dp] obtain da where da: "new_Date dp a = Some da" by auto
  from new_Date_primitive [OF b(2), of dp] obtain db where db: "new_Date dp b = Some db" by auto
  show ?thesis
    using assms(1) by (cases tr) (simp add: time_item_def a b da db)
qed

lemma slot_times:
  assumes "record_text r"
  shows "\<exists>tr'. time_item dp (Some tr) (slot_of r) = Some tr'"
proof -
  from assms obtain session slot where s: "JSON_parse r = Some session"
    and c: "completeSession session = Some slot"
    and p: "primitive_time (get_prop session ''startTime'')"
      "primitive_time (get_prop session ''endTime'')"
    by (auto simp: record_text_def split: option.splits)
  from c obtain name loc sp fo fc ab where slot: "slot = JObj
              [(''sessionName'', name),
               (''location'', loc),
               (''speakers'', sp),
               (''startTime'', or_default (get_prop session ''startTime'') JNull),
               (''endTime'', or_default (get_prop session ''endTime'') JNull),
               (''format'', fo),
               (''focus'', fc),
               (''sessionAbstract'', ab)]"
    by (auto simp: completeSession_def split: option.splits if_splits)
  have so: "slot_of r = slot" by (simp add: slot_of_def s c)
  show ?thesis
    unfolding so
  proof (rule time_item_primitive)
    show "slot \<noteq> JNull" by (simp add: slot)
    show "\<exists>v. get_prop slot ''startTime'' = Some v \<and> is_primitive v"
      using or_default_primitive [OF p(1)] by (simp add: slot get_prop_def)
    show "\<exists>v. get_prop slot ''endTime'' = Some v \<and> is_primitive v"
      using or_default_primitive [OF p(2)] by (simp add: slot get_prop_def)
  qed
qed

lemma slots_time_range:
  "list_all record_text rs \<Longrightarrow> \<exists>tr'. foldl (time_item dp) (Some tr) (map slot_of rs) = Some tr'"
proof (induction rs arbitrary: tr)
  case Nil
  then show ?case by simp
next
  case (Cons r rs)
  from Cons.prems have r: "record_text r" and rs: "list_all record_text rs" by simp_all
  from slot_times [OF r, of dp tr] obtain t where "time_item dp (Some tr) (slot_of r) = Some t"
    by auto
  with Cons.IH [OF rs, of t] show ?case by simp
qed

section \<open>Recovery from a truncated array\<close>

text \<open>
  Claim C1, as stated, fails.  When the array is cut off inside its first record, there is no
  complete record to return, and the result is not an empty schedule flagged partial but a
  failure, which carries no partial flag.  Nor is a complete record always returned as it is:
  the name \<open>A\nB\<close>, with an escaped line feed, is recovered as \<open>AB\<close>, and the name \<open>A,}\<close> as
  \<open>A}\<close>.  A start time that is an object without a primitive value makes the whole recovery
  fail, and so does a payload whose records hold the two wrapper markers.
\<close>

theorem truncated_recovery_not_exact:
  \<open>parseAgentResponse no_dates ''[{"sessionName":"A"'' =
     Failure ''Failed to parse response and no partial data could be extracted''
       ''[{"sessionName":"A"...''
       (Some ''Response appears to be truncated and could not be parsed'') \<and>
   JSON_parse (''{"sessionName":"A'' @ [CHR 0x5C] @ ''nB","location":"R"}'') =
     Some (JObj [(''sessionName'', JStr [CHR ''A'', CHR 0x0A, CHR ''B'']), (''location'', JStr ''R'')]) \<and>
   recovered_schedule (parseAgentResponse no_dates
     (''[{"sessionName":"A'' @ [CHR 0x5C] @ ''nB","location":"R"},{"sessionName":"C"'')) =
     Some [default_slot (JStr ''AB'') (JStr ''R'')] \<and>
   JSON_parse ''{"sessionName":"A,}","location":"R"}'' =
     Some (JObj [(''sessionName'', JStr ''A,}''), (''location'', JStr ''R'')]) \<and>
   recovered_schedule (parseAgentResponse no_dates
     ''[{"sessionName":"A,}","location":"R"},{"sessionName":"C"'') =
     Some [default_slot (JStr ''A}'') (JStr ''R'')] \<and>
   recovered_schedule (parseAgentResponse no_dates
     ''[{"sessionName":"A","location":"R","startTime":{"toString":1}},{"sessionName":"C"'') =
     None \<and>
   recovered_schedule (parseAgentResponse no_dates
     ''[{"sessionName":"A","location":"R","type":"Text","value":"v"},{"sessionName":"C"'') =
     None\<close>
  by code_simp

text \<open>
  Claim C1, amended.  The payload is the text of a JSON array, compact or pretty-printed, cut
  off strictly inside a record that follows at least one complete record: the complete
  records \<open>elems\<close>, each behind its separators, then the separators \<open>gap\<close> and the first \<open>k\<close>
  characters of one more record \<open>nxt\<close>, with \<open>0 < k < length nxt\<close>.  Every record is well
  formed in the sense of \<open>record_text\<close>: no backslash escape, no comma before a closing
  brace (not even inside a string), a truthy \<open>sessionName\<close> and \<open>location\<close>, times that are
  absent or primitive.  If the payload does not hold both wrapper markers, then
  \<open>parseAgentResponse\<close>, on every platform \<open>dp\<close>, returns a success flagged partial whose
  schedule holds exactly the complete records, in their order and each completed by
  \<open>completeSession\<close>, and nothing of the record that was cut off; \<open>totalSessions\<close> is their
  number, the locations are their distinct locations and the time range is the one computed
  from them.
\<close>

theorem truncated_array_recovery:
  assumes "elems \<noteq> []" "list_all element_text elems" "list_all filler gap"
    and "record_text nxt" "0 < k" "k < length nxt"
    and "\<not> wrapper_shaped (truncated_array elems gap nxt k)"
  shows "\<exists>tr. calculateTimeRange dp (map slot_of (map snd elems)) = Some tr \<and>
           parseAgentResponse dp (truncated_array elems gap nxt k) =
             Success
               \<lparr>schedule = map slot_of (map snd elems),
                locations = new_Set (map location_of (map snd elems)),
                timeRange = tr,
                totalSessions = length elems,
                noteText = ''Response was truncated - showing partial data. Some sessions may be incomplete.'',
                rawResponse = Some (truncated_array elems gap nxt k),
                isPartial = True\<rparr>"
proof -
  let ?payload = "truncated_array elems gap nxt k"
  let ?rs = "map snd elems"
  have rs: "list_all record_text ?rs"
    using assms(2) by (simp add: list_all_iff element_text_def)
  from slots_time_range [OF rs, of dp "(None, None)"]
  obtain tr where tr: "calculateTimeRange dp (map slot_of ?rs) = Some tr"
    by (auto simp: calculateTimeRange_def)
  have "take k nxt \<noteq> []" using assms(5,6) by auto
  then have ne: "?payload \<noteq> []" by (simp add: truncated_array_def)
  have w: "whole_try dp ?payload = None"
    by (simp add: whole_try_def truncated_not_json [OF assms(2,3,4,5,6)])
  have e: "extractPartialScheduleData dp ?payload =
             \<lparr>schedule = map slot_of ?rs, locations = new_Set (map location_of ?rs),
              timeRange = tr\<rparr>"
    using tr
    by (simp add: extractPartialScheduleData_def truncated_recovered [OF assms(1,2,3,4,6)] Let_def)
  have "parseAgentResponse dp ?payload =
          partial_result dp ?payload ?payload
               ''Response was truncated - showing partial data. Some sessions may be incomplete.''
               ''Failed to parse response and no partial data could be extracted''
               (take 500 ?payload @ ''...'')
               (Some ''Response appears to be truncated and could not be parsed'')"
    using assms(7) ne w unfolding parseAgentResponse_def wrapper_shaped_def by auto
  also have "\<dots> = Success
               \<lparr>schedule = map slot_of ?rs,
                locations = new_Set (map location_of ?rs),
                timeRange = tr,
                totalSessions = length elems,
                noteText = ''Response was truncated - showing partial data. Some sessions may be incomplete.'',
                rawResponse = Some ?payload,
                isPartial = True\<rparr>"
    using assms(1) unfolding partial_result_def e by simp
  finally show ?thesis using tr by blast
qed

theorem truncated_array_recovery_witness:
  \<open>truncated_array [(''['', ''{"sessionName":"A","location":"Room1"}'')] '',''
       ''{"sessionName":"B","location":"Room2"}'' 18 =
     ''[{"sessionName":"A","location":"Room1"},{"sessionName":"B"'' \<and>
   element_text (''['', ''{"sessionName":"A","location":"Room1"}'') \<and>
   list_all filler '','' \<and>
   record_text ''{"sessionName":"B","location":"Room2"}'' \<and>
   \<not> wrapper_shaped ''[{"sessionName":"A","location":"Room1"},{"sessionName":"B"'' \<and>
   parseAgentResponse no_dates ''[{"sessionName":"A","location":"Room1"},{"sessionName":"B"'' =
     Success
       \<lparr>schedule = [default_slot (JStr ''A'') (JStr ''Room1'')],
        locations = [JStr ''Room1''], timeRange = (None, None), totalSessions = 1,
        noteText = ''Response was truncated - showing partial data. Some sessions may be incomplete.'',
        rawResponse = Some ''[{"sessionName":"A","location":"Room1"},{"sessionName":"B"'',
        isPartial = True\<rparr>\<close>
proof -
  let ?elems = \<open>[(''['', ''{"sessionName":"A","location":"Room1"}'')]\<close>
  let ?nxt = \<open>''{"sessionName":"B","location":"Room2"}''\<close>
  let ?payload = \<open>''[{"sessionName":"A","location":"Room1"},{"sessionName":"B"''\<close>
  have p: "truncated_array ?elems '','' ?nxt 18 = ?payload"
    by code_simp
  have h1: "?elems \<noteq> []" by simp
  have e: \<open>element_text (''['', ''{"sessionName":"A","location":"Room1"}'')\<close>
    by code_simp
  then have h2: "list_all element_text ?elems" by simp
  have h3: "list_all filler '',''" by code_simp
  have h4: "record_text ?nxt" by code_simp
  have h5: "(0::nat) < 18" "18 < length ?nxt" by simp_all
  have w: "\<not> wrapper_shaped ?payload" by code_simp
  then have h6: "\<not> wrapper_shaped (truncated_array ?elems '','' ?nxt 18)"
    unfolding p .
  have s: "map slot_of (map snd ?elems) = [default_slot (JStr ''A'') (JStr ''Room1'')]"
    by code_simp
  have l: "new_Set (map location_of (map snd ?elems)) = [JStr ''Room1'']"
    by code_simp
  have t: "calculateTimeRange no_dates [default_slot (JStr ''A'') (JStr ''Room1'')] =
             Some (None, None)"
    by code_simp
  from truncated_array_recovery [OF h1 h2 h3 h4 h5 h6, of no_dates]
  have "parseAgentResponse no_dates ?payload =
     Success
       \<lparr>schedule = [default_slot (JStr ''A'') (JStr ''Room1'')],
        locations = [JStr ''Room1''], timeRange = (None, None), totalSessions = 1,
        noteText = ''Response was truncated - showing partial data. Some sessions may be incomplete.'',
        rawResponse = Some ?payload,
        isPartial = True\<rparr>"
    unfolding p s l t by simp
  with p e h3 h4 w show ?thesis by blast
qed


section \<open>Concatenated arrays\<close>

text \<open>
  Claim C2.  Two valid arrays of one session record each, concatenated, with or without a
  \<open>Part 2\<close> marker between them: \<open>combineMultipleResponses\<close> does not return an array of the
  two records.  The object scan, which runs first, finds the two records inside the arrays,
  \<open>combineJsonObjects\<close> sees no schedule-bearing object among them and returns the text of
  the first record alone; \<open>combineJsonArrays\<close> is never reached.
\<close>

theorem concatenated_arrays_first_object_only:
  \<open>combineMultipleResponses
     ''[{"sessionName":"A","location":"X"}][{"sessionName":"B","location":"Y"}]'' =
     ''{"sessionName":"A","location":"X"}'' \<and>
   combineMultipleResponses
     ''[{"sessionName":"A","location":"X"}] Part 2 [{"sessionName":"B","location":"Y"}]'' =
     ''{"sessionName":"A","location":"X"}''\<close>
  by code_simp

section \<open>The chain limit\<close>

lemma chain_inv_start: "chain_inv start_chain"
  by (simp add: chain_inv_def start_chain_def)

lemma chain_inv_link:
  assumes "chain_inv ch" "link_waiting ch"
  shows "chain_inv (execute_link i (ch\<lparr>started := started ch + 1\<rparr>))"
  using assms
  by (auto simp: chain_inv_def link_waiting_def execute_link_def maxChainDepth_def Let_def
      split: batch_outcome.splits)

lemma chain_inv_run: "chain_inv ch \<Longrightarrow> chain_inv (run_chain ch inputs)"
proof (induction inputs arbitrary: ch)
  case Nil
  then show ?case by simp
next
  case (Cons i inputs)
  show ?case
  proof (cases "link_waiting ch")
    case True
    have "chain_inv (execute_link i (ch\<lparr>started := started ch + 1\<rparr>))"
      by (rule chain_inv_link [OF Cons.prems True])
    from Cons.IH [OF this] True show ?thesis by simp
  next
    case False
    with Cons.prems show ?thesis by simp
  qed
qed

text \<open>A link whose batch succeeds, below and at the limit.\<close>

lemma link_continues:
  assumes "batch_ok i" "chain_inv ch" "link_waiting ch" "chainDepth ch < 4"
  shows "link_waiting (execute_link i (ch\<lparr>started := started ch + 1\<rparr>)) \<and>
         chainDepth (execute_link i (ch\<lparr>started := started ch + 1\<rparr>)) = chainDepth ch + 1"
  using assms
  by (auto simp: batch_ok_def chain_inv_def link_waiting_def execute_link_def maxChainDepth_def
      Let_def split: batch_outcome.splits)

lemma link_at_limit:
  assumes "batch_ok i" "chain_inv ch" "link_waiting ch" "chainDepth ch = 4"
  shows "sessionStatus (execute_link i (ch\<lparr>started := started ch + 1\<rparr>)) = Failed \<and>
         reason (execute_link i (ch\<lparr>started := started ch + 1\<rparr>)) = ''chain limit reached'' \<and>
         enqueued (execute_link i (ch\<lparr>started := started ch + 1\<rparr>)) = 5"
  using assms
  by (auto simp: batch_ok_def chain_inv_def link_waiting_def execute_link_def maxChainDepth_def
      Let_def split: batch_outcome.splits)

lemma run_stopped: "\<not> link_waiting ch \<Longrightarrow> run_chain ch inputs = ch"
  by (cases inputs) simp_all

lemma run_ok_links:
  assumes "chain_inv ch" "link_waiting ch" "list_all batch_ok inputs"
    and "chainDepth ch + length inputs = 5"
  shows "sessionStatus (run_chain ch (inputs @ rest)) = Failed \<and>
         reason (run_chain ch (inputs @ rest)) = ''chain limit reached'' \<and>
         enqueued (run_chain ch (inputs @ rest)) = 5"
  using assms
proof (induction inputs arbitrary: ch)
  case Nil
  then show ?case by (simp add: chain_inv_def link_waiting_def)
next
  case (Cons i inputs)
  let ?ch = "execute_link i (ch\<lparr>started := started ch + 1\<rparr>)"
  from Cons.prems have ok: "batch_ok i" and oks: "list_all batch_ok inputs" by simp_all
  have inv: "chain_inv ?ch" by (rule chain_inv_link) (rule Cons.prems)+
  show ?case
  proof (cases "chainDepth ch = 4")
    case True
    from link_at_limit [OF ok Cons.prems(1,2) True]
    have f: "sessionStatus ?ch = Failed" "reason ?ch = ''chain limit reached''" "enqueued ?ch = 5"
      by simp_all
    then have "\<not> link_waiting ?ch" by (simp add: link_waiting_def)
    then have "run_chain ?ch (inputs @ rest) = ?ch" by (rule run_stopped)
    with f Cons.prems(2) show ?thesis by simp
  next
    case False
    with Cons.prems(4) have lt: "chainDepth ch < 4" by simp
    from link_continues [OF ok Cons.prems(1,2) lt]
    have w: "link_waiting ?ch" and d: "chainDepth ?ch = chainDepth ch + 1" by simp_all
    from d Cons.prems(4) have "chainDepth ?ch + length inputs = 5" by simp
    from Cons.IH [OF inv w oks this] Cons.prems(2) show ?thesis by simp
  qed
qed

text \<open>
  Claim C3.  Whatever the links of one chain observe, at most 5 links are ever enqueued for
  it, the first one included.  When the first five links each process a batch, the chain ends
  with the status \<open>Failed\<close> and a reason that contains \<open>chain limit\<close>, and no sixth link is
  enqueued.
\<close>

theorem chain_limit:
  "enqueued (run_chain start_chain inputs) \<le> 5 \<and>
   (5 \<le> length inputs \<and> list_all batch_ok (take 5 inputs) \<longrightarrow>
      sessionStatus (run_chain start_chain inputs) = Failed \<and>
      str_includes (reason (run_chain start_chain inputs)) ''chain limit'' \<and>
      enqueued (run_chain start_chain inputs) = 5)"
proof -
  have 1: "enqueued (run_chain start_chain inputs) \<le> 5"
    using chain_inv_run [OF chain_inv_start, of inputs] by (simp add: chain_inv_def)
  have 2: "sessionStatus (run_chain start_chain inputs) = Failed \<and>
      str_includes (reason (run_chain start_chain inputs)) ''chain limit'' \<and>
      enqueued (run_chain start_chain inputs) = 5"
    if len: "5 \<le> length inputs" and ok: "list_all batch_ok (take 5 inputs)"
  proof -
    have w: "link_waiting start_chain"
      by (simp add: link_waiting_def start_chain_def)
    have d: "chainDepth start_chain + length (take 5 inputs) = 5"
      using len by (simp add: start_chain_def)
    have s: "str_includes ''chain limit reached'' ''chain limit''"
      by code_simp
    from run_ok_links [OF chain_inv_start w ok d, of "drop 5 inputs"] s
    show ?thesis by simp
  qed
  from 1 2 show ?thesis by blast
qed

theorem chain_limit_witness:
  "5 \<le> length (replicate 6 \<lparr>cancelled = False, remainingCount = 40, outcome = BatchCreated 10\<rparr>) \<and>
   list_all batch_ok
     (take 5 (replicate 6 \<lparr>cancelled = False, remainingCount = 40, outcome = BatchCreated 10\<rparr>)) \<and>
   sessionStatus (run_chain start_chain
     (replicate 6 \<lparr>cancelled = False, remainingCount = 40, outcome = BatchCreated 10\<rparr>)) = Failed \<and>
   str_includes (reason (run_chain start_chain
     (replicate 6 \<lparr>cancelled = False, remainingCount = 40, outcome = BatchCreated 10\<rparr>)))
     ''chain limit'' \<and>
   enqueued (run_chain start_chain
     (replicate 6 \<lparr>cancelled = False, remainingCount = 40, outcome = BatchCreated 10\<rparr>)) = 5"
proof -
  have h: "5 \<le> length (replicate 6 \<lparr>cancelled = False, remainingCount = 40, outcome = BatchCreated 10\<rparr>) \<and>
     list_all batch_ok
       (take 5 (replicate 6 \<lparr>cancelled = False, remainingCount = 40, outcome = BatchCreated 10\<rparr>))"
    by (simp add: batch_ok_def list_all_iff)
  with chain_limit [of "replicate 6 \<lparr>cancelled = False, remainingCount = 40, outcome = BatchCreated 10\<rparr>"]
  show ?thesis by blast
qed

section \<open>The wrapper example\<close>

text \<open>
  Claim C4, as stated, fails: for the wrapper example the one slot of the schedule has no
  \<open>speakers\<close> property, where the claim has the default \<open>["Speaker TBD"]\<close>.
\<close>

theorem wrapper_example_no_speakers:
  \<open>speakers_of (parseAgentResponse no_dates
     (''{"type":"Text","value":"[{'' @ escq ''sessionName'' @ '':'' @ escq ''Keynote'' @ '','' @
        escq ''location'' @ '':'' @ escq ''Hall A'' @ ''}]"}'')) = [None]\<close>
  by code_simp

text \<open>
  Claim C4, amended.  For the wrapper example \<open>parseAgentResponse\<close> succeeds with the parsed
  array as the schedule: one slot, with the \<open>sessionName\<close> \<open>Keynote\<close> and the \<open>location\<close>
  \<open>Hall A\<close> and no other field, a \<open>totalSessions\<close> of 1 and the locations \<open>["Hall A"]\<close>.  The
  fallbacks of recovery are not applied to a payload that parses.
\<close>

theorem wrapper_example_proposal:
  \<open>parseAgentResponse dp
     (''{"type":"Text","value":"[{'' @ escq ''sessionName'' @ '':'' @ escq ''Keynote'' @ '','' @
        escq ''location'' @ '':'' @ escq ''Hall A'' @ ''}]"}'') =
   Success
     \<lparr>schedule = [JObj [(''sessionName'', JStr ''Keynote''), (''location'', JStr ''Hall A'')]],
      locations = [JStr ''Hall A''], timeRange = (None, None), totalSessions = 1,
      noteText = ''Response may be truncated due to platform limits'',
      rawResponse = None, isPartial = False\<rparr>\<close>
  by code_simp

section \<open>A wrapper that does not parse\<close>

lemma indexOf_includes:
  "str_includes s p \<Longrightarrow> \<exists>i. indexOf s p = Some i \<and> i + length p \<le> length s"
proof (induction s)
  case Nil
  then show ?case by simp
next
  case (Cons c s)
  show ?case
  proof (cases "startsWith (c # s) p")
    case True
    then have "length (take (length p) (c # s)) = length p"
      unfolding startsWith_def by simp
    then have "length p \<le> length (c # s)"
      by (simp add: min_def split: if_splits)
    with True show ?thesis by simp
  next
    case False
    with Cons show ?thesis by auto
  qed
qed

lemma manual_extract_suffix:
  assumes "str_includes x value_key"
  shows "\<exists>pre c. x = pre @ c \<and> 8 \<le> length pre \<and> manual_extract x = Some c"
proof -
  from indexOf_includes [OF assms] obtain i where i: "indexOf x value_key = Some i"
    and len: "i + 8 \<le> length x"
    by (auto simp: value_key_def)
  define d where "d = drop (i + 8) x"
  define r where "r = dropWhile manual_ws d"
  have x: "x = take (i + 8) x @ d" by (simp add: d_def)
  have d: "d = takeWhile manual_ws d @ r" by (simp add: r_def)
  have l: "length (take (i + 8) x) = i + 8" using len by simp
  show ?thesis
  proof (cases "startsWith r [CHR 0x22]")
    case True
    then have "r \<noteq> []" by (auto simp: startsWith_def)
    then have r: "r = [hd r] @ tl r" by simp
    have "x = (take (i + 8) x @ takeWhile manual_ws d @ [hd r]) @ tl r"
      using x d r by (metis append.assoc)
    moreover have "8 \<le> length (take (i + 8) x @ takeWhile manual_ws d @ [hd r])"
      using l by simp
    moreover have "manual_extract x = Some (tl r)"
      using i True by (simp add: manual_extract_def Let_def r_def d_def)
    ultimately show ?thesis by blast
  next
    case False
    have "x = (take (i + 8) x @ takeWhile manual_ws d) @ r"
      using x d by (metis append.assoc)
    moreover have "8 \<le> length (take (i + 8) x @ takeWhile manual_ws d)"
      using l by simp
    moreover have "manual_extract x = Some r"
      using i False by (simp add: manual_extract_def Let_def r_def d_def)
    ultimately show ?thesis by blast
  qed
qed

text \<open>
  Claim C5, as stated, fails.  The wrapper below is not valid JSON (the quotes of its value are
  not escaped).  The manual fallback does not hand the original text on: it cuts the text off
  behind \<open>"value":"\<close>, and recovery finds the record \<open>A\<close> in what is left, where it finds
  nothing in the original text.
\<close>

theorem broken_wrapper_content_changed:
  \<open>JSON_parse ''{"type":"Text","value":"[{"sessionName":"A","location":"R"}]"}'' = None \<and>
   manual_extract ''{"type":"Text","value":"[{"sessionName":"A","location":"R"}]"}'' =
     Some ''[{"sessionName":"A","location":"R"}]"}'' \<and>
   parseAgentResponse no_dates ''{"type":"Text","value":"[{"sessionName":"A","location":"R"}]"}'' =
     Success \<lparr>schedule = [default_slot (JStr ''A'') (JStr ''R'')], locations = [JStr ''R''],
       timeRange = (None, None), totalSessions = 1,
       noteText = ''Response was truncated - showing partial data (parsed manually).'',
       rawResponse = Some ''{"type":"Text","value":"[{"sessionName":"A","location":"R"}]"}'',
       isPartial = True\<rparr> \<and>
   schedule (extractPartialScheduleData no_dates ''{"type":"Text","value":"[{"sessionName":"A","location":"R"}]"}'') = []\<close>
  by code_simp

text \<open>
  Claim C5, amended.  When a response has the two wrapper markers and is not valid JSON,
  \<open>parseAgentResponse\<close> returns a result, and the later stages work on the content behind the
  first \<open>"value":\<close>, a proper suffix of the response that is at least 8 characters shorter:
  when that content does not parse either, the result is the partial recovery of the content.
\<close>

theorem broken_wrapper_fallback:
  assumes "str_includes response type_text" "str_includes response value_key"
    and "JSON_parse response = None"
  shows "\<exists>pre content. response = pre @ content \<and> 8 \<le> length pre \<and>
           manual_extract response = Some content \<and>
           (JSON_parse content = None \<longrightarrow>
              (\<exists>okNote err failNote. parseAgentResponse dp response =
                 partial_result dp content response okNote err (take 500 content @ ''...'') failNote))"
proof -
  from manual_extract_suffix [OF assms(2)] obtain pre content
    where x: "response = pre @ content" "8 \<le> length pre"
      and m: "manual_extract response = Some content"
    by blast
  from x(2) have "pre \<noteq> []" by auto
  with x(1) have ne: "response \<noteq> []" by simp
  have w: "wrapper_try dp response = None"
    using assms(3) by (simp add: wrapper_try_def)
  have p: "parseAgentResponse dp response = manual_fallback dp response"
    using ne assms(1,2) w by (simp add: parseAgentResponse_def)
  have "parseAgentResponse dp response =
          partial_result dp content response
            (if looks_like_json content
             then ''Response was truncated - showing partial data (parsed manually).''
             else ''Response was truncated - showing partial data extracted manually.'')
            ''Manual extraction failed - content is not valid JSON and no partial data could be extracted''
            (take 500 content @ ''...'')
            (Some (if looks_like_json content
                   then ''Response appears to be truncated and could not be parsed''
                   else ''Response may be truncated''))"
    if "JSON_parse content = None"
    unfolding p manual_fallback_def using m that by simp
  then have r: "JSON_parse content = None \<longrightarrow>
     (\<exists>okNote err failNote. parseAgentResponse dp response =
         partial_result dp content response okNote err (take 500 content @ ''...'') failNote)"
    by (intro impI exI)
  show ?thesis
  proof (intro exI conjI)
    show "response = pre @ content" by (rule x(1))
    show "8 \<le> length pre" by (rule x(2))
    show "manual_extract response = Some content" by (rule m)
    show "JSON_parse content = None \<longrightarrow>
     (\<exists>okNote err failNote. parseAgentResponse dp response =
         partial_result dp content response okNote err (take 500 content @ ''...'') failNote)"
      by (rule r)
  qed
qed

theorem broken_wrapper_fallback_witness:
  \<open>str_includes ''{"type":"Text","value":"[{"sessionName":"A","location":"R"}]"}'' type_text \<and>
   str_includes ''{"type":"Text","value":"[{"sessionName":"A","location":"R"}]"}'' value_key \<and>
   JSON_parse ''{"type":"Text","value":"[{"sessionName":"A","location":"R"}]"}'' = None \<and>
   (\<exists>pre content. ''{"type":"Text","value":"[{"sessionName":"A","location":"R"}]"}'' = pre @ content \<and>
      8 \<le> length pre \<and>
      manual_extract ''{"type":"Text","value":"[{"sessionName":"A","location":"R"}]"}'' = Some content \<and>
      (JSON_parse content = None \<longrightarrow>
         (\<exists>okNote err failNote.
            parseAgentResponse no_dates ''{"type":"Text","value":"[{"sessionName":"A","location":"R"}]"}'' =
              partial_result no_dates content ''{"type":"Text","value":"[{"sessionName":"A","location":"R"}]"}''
                okNote err (take 500 content @ ''...'') failNote)))\<close>
proof -
  have h1: \<open>str_includes ''{"type":"Text","value":"[{"sessionName":"A","location":"R"}]"}'' type_text\<close>
    by code_simp
  have h2: \<open>str_includes ''{"type":"Text","value":"[{"sessionName":"A","location":"R"}]"}'' value_key\<close>
    by code_simp
  have h3: \<open>JSON_parse ''{"type":"Text","value":"[{"sessionName":"A","location":"R"}]"}'' = None\<close>
    by code_simp
  from h1 h2 h3 broken_wrapper_fallback [OF h1 h2 h3, of no_dates] show ?thesis by blast
qed

section \<open>The session count\<close>

lemma counted_partial_result: "counted (partial_result dp c a n e r f)"
  by (simp add: counted_def partial_result_def Let_def)

lemma counted_parsed_proposal: "parsed_proposal dp s n = Some r \<Longrightarrow> counted r"
  by (auto simp: counted_def parsed_proposal_def split: option.splits)

lemma counted_wrapped_content: "counted (wrapped_content dp a c)"
  by (auto simp: wrapped_content_def counted_partial_result
      dest: counted_parsed_proposal split: option.splits if_splits)

lemma counted_wrapper_try: "wrapper_try dp a = Some r \<Longrightarrow> counted r"
  using counted_wrapped_content [of dp a]
  by (auto simp: wrapper_try_def counted_def [of "Failure _ _ _"]
      split: option.splits if_splits json.splits)

lemma counted_manual_fallback: "counted (manual_fallback dp a)"
  by (auto simp: manual_fallback_def counted_partial_result counted_def [of "Failure _ _ _"]
      dest: counted_parsed_proposal split: option.splits if_splits)

lemma counted_whole_try: "whole_try dp a = Some r \<Longrightarrow> counted r"
  by (auto simp: whole_try_def counted_def [of "Failure _ _ _"]
      dest: counted_parsed_proposal split: option.splits if_splits)

lemma counted_parseAgentResponse: "counted (parseAgentResponse dp a)"
  by (auto simp: parseAgentResponse_def counted_partial_result counted_manual_fallback
      counted_def [of "Failure _ _ _"]
      dest: counted_wrapper_try counted_whole_try split: option.splits)

lemma merge_step_uncounted:
  assumes "s \<noteq> JNull" "\<not> truthy_opt (get_prop s ''totalSessions'')"
  shows "\<exists>slots' locs'. merge_step (Some (slots, locs, JNum 0 0)) s = Some (slots', locs', JNum 0 0)"
  using assms by (simp add: merge_step_def Let_def)

lemma foldl_merge_uncounted:
  assumes "\<forall>s\<in>set schedules. s \<noteq> JNull \<and> \<not> truthy_opt (get_prop s ''totalSessions'')"
  shows "\<exists>slots' locs'. foldl merge_step (Some (slots, locs, JNum 0 0)) schedules =
           Some (slots', locs', JNum 0 0)"
  using assms
proof (induction schedules arbitrary: slots locs)
  case Nil
  then show ?case by simp
next
  case (Cons s schedules)
  from Cons.prems obtain slots1 locs1
    where "merge_step (Some (slots, locs, JNum 0 0)) s = Some (slots1, locs1, JNum 0 0)"
    using merge_step_uncounted [of s slots locs] by auto
  with Cons.IH [of slots1 locs1] Cons.prems show ?case by simp
qed

lemma merge_uncounted:
  assumes "\<forall>s\<in>set schedules. s \<noteq> JNull \<and> \<not> truthy_opt (get_prop s ''totalSessions'')"
  shows "get_prop (mergeScheduleData schedules) ''totalSessions'' =
           Some (number_of_nat (length (items (get_prop (mergeScheduleData schedules) ''schedule''))))"
proof -
  from foldl_merge_uncounted [OF assms, of "[]" "[]"] obtain slots' locs'
    where "foldl merge_step (Some ([], [], JNum 0 0)) schedules = Some (slots', locs', JNum 0 0)"
    by blast
  then show ?thesis
    by (simp add: mergeScheduleData_def get_prop_def items_def)
qed

text \<open>
  Claim C6, as stated, fails for \<open>mergeScheduleData\<close>: of two fragments with one slot between
  them, the first reports a \<open>totalSessions\<close> of 5, and the merged \<open>totalSessions\<close> is 5.
\<close>

theorem merged_total_from_input:
  \<open>mergeScheduleData
     [JObj [(''schedule'', JArr [JObj [(''sessionName'', JStr ''A''), (''location'', JStr ''X'')]]),
            (''totalSessions'', JNum 5 0)],
      JObj [(''schedule'', JArr [])]] =
   JObj [(''schedule'', JArr [JObj [(''sessionName'', JStr ''A''), (''location'', JStr ''X'')]]),
         (''sessions'', JArr [JObj [(''sessionName'', JStr ''A''), (''location'', JStr ''X'')]]),
         (''totalSessions'', JNum 5 0),
         (''locations'', JArr []),
         (''timeRange'', JObj [(''start'', JNull), (''end'', JNull)])]\<close>
  by code_simp

text \<open>
  Claim C6, amended.  In every proposal that \<open>parseAgentResponse\<close> returns, on the parsing and
  on the recovery paths alike, \<open>totalSessions\<close> is the length of the schedule.
  \<open>mergeScheduleData\<close> adds up the \<open>totalSessions\<close> that the fragments report; when no
  fragment reports a truthy one, its \<open>totalSessions\<close> is the number of merged slots.
\<close>

theorem total_sessions_recomputed:
  "(parseAgentResponse dp response = Success p \<longrightarrow> totalSessions p = length (schedule p)) \<and>
   ((\<forall>s\<in>set schedules. s \<noteq> JNull \<and> \<not> truthy_opt (get_prop s ''totalSessions'')) \<longrightarrow>
      get_prop (mergeScheduleData schedules) ''totalSessions'' =
        Some (number_of_nat (length (items (get_prop (mergeScheduleData schedules) ''schedule'')))))"
  using counted_parseAgentResponse [of dp response] merge_uncounted [of schedules]
  by (auto simp: counted_def)

theorem total_sessions_recomputed_witness:
  \<open>parseAgentResponse no_dates ''[{"sessionName":"A","location":"Room1"},{"sessionName":"B"'' =
     Success \<lparr>schedule = [default_slot (JStr ''A'') (JStr ''Room1'')], locations = [JStr ''Room1''],
       timeRange = (None, None), totalSessions = 1,
       noteText = ''Response was truncated - showing partial data. Some sessions may be incomplete.'',
       rawResponse = Some ''[{"sessionName":"A","location":"Room1"},{"sessionName":"B"'',
       isPartial = True\<rparr> \<and>
   \<not> truthy_opt (get_prop (JObj [(''schedule'', JArr [JStr ''a''])]) ''totalSessions'') \<and>
   \<not> truthy_opt (get_prop (JObj [(''sessions'', JArr [JStr ''b'', JStr ''c''])]) ''totalSessions'') \<and>
   get_prop (mergeScheduleData
      [JObj [(''schedule'', JArr [JStr ''a''])], JObj [(''sessions'', JArr [JStr ''b'', JStr ''c''])]])
      ''totalSessions'' = Some (JNum 3 0)\<close>
proof -
  have h1: \<open>parseAgentResponse no_dates ''[{"sessionName":"A","location":"Room1"},{"sessionName":"B"'' =
     Success \<lparr>schedule = [default_slot (JStr ''A'') (JStr ''Room1'')], locations = [JStr ''Room1''],
       timeRange = (None, None), totalSessions = 1,
       noteText = ''Response was truncated - showing partial data. Some sessions may be incomplete.'',
       rawResponse = Some ''[{"sessionName":"A","location":"Room1"},{"sessionName":"B"'',
       isPartial = True\<rparr>\<close>
    by code_simp
  have h2: "\<forall>s\<in>set [JObj [(''schedule'', JArr [JStr ''a''])], JObj [(''sessions'', JArr [JStr ''b'', JStr ''c''])]].
      s \<noteq> JNull \<and> \<not> truthy_opt (get_prop s ''totalSessions'')"
    by (simp add: get_prop_def truthy_opt_def)
  have h3: "number_of_nat (length (items (get_prop (mergeScheduleData
      [JObj [(''schedule'', JArr [JStr ''a''])], JObj [(''sessions'', JArr [JStr ''b'', JStr ''c''])]])
      ''schedule''))) = JNum 3 0"
    by code_simp
  from h1 h2 h3
    total_sessions_recomputed [of no_dates \<open>''[{"sessionName":"A","location":"Room1"},{"sessionName":"B"''\<close> _
      "[JObj [(''schedule'', JArr [JStr ''a''])], JObj [(''sessions'', JArr [JStr ''b'', JStr ''c''])]]"]
  show ?thesis by simp
qed

section \<open>Unwrapping twice\<close>

lemma starter_not_space: "json_starter c \<Longrightarrow> \<not> js_space c"
  by (auto simp: json_starter_def js_space_def)

lemma ender_not_space: "json_ender c \<Longrightarrow> \<not> js_space c"
  by (auto simp: json_ender_def js_space_def)

lemma rev_dropWhile_prefix: "\<exists>u. xs = rev (dropWhile P (rev xs)) @ u"
proof -
  have "rev xs = takeWhile P (rev xs) @ dropWhile P (rev xs)" by simp
  then have "rev (rev xs) = rev (takeWhile P (rev xs) @ dropWhile P (rev xs))"
    by (rule arg_cong)
  then have "xs = rev (dropWhile P (rev xs)) @ rev (takeWhile P (rev xs))"
    by (simp only: rev_append rev_rev_ident)
  then show ?thesis ..
qed

lemma framed_cleanResponse: "framed (cleanResponse s)"
proof (cases "cleanResponse s = []")
  case True
  then show ?thesis by (simp add: framed_def)
next
  case False
  define t where "t = strip_leading (trim s)"
  define c where "c = cleanResponse s"
  have c: "c = rev (dropWhile (\<lambda>c. \<not> json_ender c) (rev t))"
    by (simp add: c_def t_def cleanResponse_def strip_trailing_def strip_trailing_rev_dropWhile)
  from False have cne: "c \<noteq> []" by (simp add: c_def)
  then have ne: "dropWhile (\<lambda>c. \<not> json_ender c) (rev t) \<noteq> []"
    unfolding c by simp
  have "last c = hd (dropWhile (\<lambda>c. \<not> json_ender c) (rev t))"
    unfolding c using ne by (simp add: last_rev)
  with hd_dropWhile [OF ne] have e: "json_ender (last c)" by simp
  from rev_dropWhile_prefix [of t "\<lambda>c. \<not> json_ender c"] obtain u where t: "t = c @ u"
    unfolding c by blast
  from cne have h: "hd t = hd c" unfolding t by simp
  from cne have tne: "t \<noteq> []" unfolding t by simp
  then have "dropWhile (\<lambda>c. \<not> json_starter c) (trim s) \<noteq> []"
    by (simp add: t_def strip_leading_dropWhile)
  from hd_dropWhile [OF this] have "json_starter (hd t)"
    by (simp add: t_def strip_leading_dropWhile)
  with h e show ?thesis by (simp add: framed_def c_def)
qed

lemma cleanResponse_framed:
  assumes "framed c"
  shows "cleanResponse c = c"
proof (cases "c = []")
  case True
  then show ?thesis
    by (simp add: cleanResponse_def trim_def strip_trailing_def)
next
  case False
  with assms have s: "json_starter (hd c)" and e: "json_ender (last c)"
    by (auto simp: framed_def)
  from False have r: "rev c \<noteq> []" "hd (rev c) = last c"
    by (simp_all add: hd_rev)
  have 1: "dropWhile js_space c = c"
    using False starter_not_space [OF s] by (simp add: dropWhile_eq_self_iff)
  have 2: "dropWhile js_space (rev c) = rev c"
    using r ender_not_space [OF e] by (simp add: dropWhile_eq_self_iff)
  have 3: "dropWhile (\<lambda>c. \<not> json_starter c) c = c"
    using s by (simp add: dropWhile_eq_self_iff)
  have 4: "dropWhile (\<lambda>c. \<not> json_ender c) (rev c) = rev c"
    using r e by (simp add: dropWhile_eq_self_iff)
  show ?thesis
    by (simp add: cleanResponse_def trim_def strip_trailing_def strip_leading_dropWhile
        strip_trailing_rev_dropWhile 1 2 3 4)
qed

lemma cleanResponse_idem: "cleanResponse (cleanResponse s) = cleanResponse s"
  by (rule cleanResponse_framed) (rule framed_cleanResponse)

lemma combine_pass_through:
  assumes "pass_through (cleanResponse s)"
  shows "combineMultipleResponses s = cleanResponse s"
proof (cases "s = []")
  case True
  then show ?thesis
    by (simp add: combineMultipleResponses_def cleanResponse_def trim_def strip_trailing_def)
next
  case False
  from assms have
    "\<not> length (extractMultipleJsonObjects (cleanResponse s)) > 1"
    "\<not> length (extractMultipleJsonArrays (cleanResponse s)) > 1"
    "\<not> (str_includes (cleanResponse s) ''Part 1'' \<or> str_includes (cleanResponse s) ''Part 2'' \<or>
        str_includes (cleanResponse s) ''Response 1'' \<or> str_includes (cleanResponse s) ''Response 2'')"
    "\<not> (str_includes (cleanResponse s) type_text \<and> str_includes (cleanResponse s) value_key)"
    unfolding pass_through_def by (simp_all only: not_less de_Morgan_disj) blast+
  with False show ?thesis
    unfolding combineMultipleResponses_def Let_def by (simp only: if_False)
qed

text \<open>
  Claim C8, as stated, fails.  A wrapper whose value holds four backslashes comes out of
  \<open>combineMultipleResponses\<close> with two, and the output, put in again, comes out with one.
\<close>

theorem unwrap_twice_differs:
  \<open>combineMultipleResponses
     (''{"type":"Text","value":"a'' @ [CHR 0x5C, CHR 0x5C, CHR 0x5C, CHR 0x5C] @ ''b"}'') =
     ''{"type":"Text","value":"a'' @ [CHR 0x5C, CHR 0x5C] @ ''b"}'' \<and>
   combineMultipleResponses (''{"type":"Text","value":"a'' @ [CHR 0x5C, CHR 0x5C] @ ''b"}'') =
     ''{"type":"Text","value":"a'' @ [CHR 0x5C] @ ''b"}''\<close>
  by code_simp

text \<open>
  Claim C8, amended.  On a response whose cleaned form triggers none of the patterns (at most
  one valid object, at most one valid array, no part marker, no wrapper), a second application
  of \<open>combineMultipleResponses\<close> returns what the first one returned.
\<close>

theorem pass_through_idempotent:
  assumes "pass_through (cleanResponse response)"
  shows "combineMultipleResponses (combineMultipleResponses response) = combineMultipleResponses response"
proof -
  have "combineMultipleResponses response = cleanResponse response"
    by (rule combine_pass_through [OF assms])
  moreover have "combineMultipleResponses (cleanResponse response) = cleanResponse response"
    using combine_pass_through [of "cleanResponse response"] assms
    by (simp add: cleanResponse_idem)
  ultimately show ?thesis by simp
qed

theorem pass_through_idempotent_witness:
  \<open>pass_through (cleanResponse ''Here it is: [{"sessionName":"A","location":"X"}] Thanks'') \<and>
   combineMultipleResponses
     (combineMultipleResponses ''Here it is: [{"sessionName":"A","location":"X"}] Thanks'') =
   combineMultipleResponses ''Here it is: [{"sessionName":"A","location":"X"}] Thanks''\<close>
proof -
  have h: \<open>pass_through (cleanResponse ''Here it is: [{"sessionName":"A","location":"X"}] Thanks'')\<close>
    by code_simp
  from h pass_through_idempotent [OF h] show ?thesis by blast
qed

section \<open>The progress estimate\<close>

lemma forward_from_Cons:
  "forward_from k (r # rs) \<Longrightarrow> k \<le> rank (status r) \<and> forward_from (rank (status r)) rs"
  by (cases rs) (simp_all add: forward_from_def)

lemma tracking_update:
  assumes "tracking c v k" "k \<le> rank (status r)"
  shows "v \<le> asyncProgress (fire c (Reply r)) \<and>
         tracking (fire c (Reply r)) (asyncProgress (fire c (Reply r))) (rank (status r))"
  using assms
  by (cases "status r")
    (auto simp: status_update_def tracking_def handleAsyncAgentCompletion_def
      handleAsyncAgentFailure_def cleanupAsyncIntervals_def Let_def split: option.splits)

lemma tracking_progress:
  assumes "tracking c v k" "0 \<le> x" "x < 5"
  shows "tracking (progress_tick x c) v k"
  using assms by (auto simp: progress_tick_def tracking_def)

lemma tracking_tick: "tracking c v k \<Longrightarrow> tracking (poll_tick c) v k"
  by (simp add: poll_tick_def tracking_def)

lemma samples_sorted:
  assumes "tracking c v k" "forward_from k (polled es)" "list_all random_ok es"
  shows "sorted (v # poll_samples c es)"
  using assms
proof (induction es arbitrary: c v k)
  case Nil
  then show ?case by simp
next
  case (Cons e es)
  from Cons.prems(3) have ok: "list_all random_ok es" by simp
  show ?case
  proof (cases e)
    case Tick
    with Cons.prems(2) have f: "forward_from k (polled es)" by simp
    from Cons.IH [OF tracking_tick [OF Cons.prems(1)] f ok] show ?thesis
      unfolding Tick by simp
  next
    case (Reply r)
    with Cons.prems(2) have k: "k \<le> rank (status r)" and f: "forward_from (rank (status r)) (polled es)"
      using forward_from_Cons [of k r "polled es"] by simp_all
    from tracking_update [OF Cons.prems(1) k]
    have v: "v \<le> asyncProgress (fire c (Reply r))"
      and t: "tracking (fire c (Reply r)) (asyncProgress (fire c (Reply r))) (rank (status r))"
      by simp_all
    from Cons.IH [OF t f ok]
    have "sorted (asyncProgress (fire c (Reply r)) # poll_samples (fire c (Reply r)) es)" .
    with v show ?thesis unfolding Reply by auto
  next
    case ReplyError
    with Cons.prems(2) have f: "forward_from k (polled es)" by simp
    have "tracking (fire c ReplyError) v k" using Cons.prems(1) by (simp add: tracking_def)
    from Cons.IH [OF this f ok] show ?thesis unfolding ReplyError by simp
  next
    case (Progress x)
    with Cons.prems(3) have x: "0 \<le> x" "x < 5" by simp_all
    from Progress Cons.prems(2) have f: "forward_from k (polled es)" by simp
    from Cons.IH [OF tracking_progress [OF Cons.prems(1) x] f ok] show ?thesis
      unfolding Progress by simp
  qed
qed

lemma tracking_monitoring: "tracking (monitoring sid) 0 0"
  by (simp add: tracking_def monitoring_def)

lemma terminal_update:
  "(status r = Completed \<longrightarrow>
      asyncProgress (fire c (Reply r)) = 100 \<and> \<not> pollTimer (fire c (Reply r)) \<and>
      completionCalls (fire c (Reply r)) = completionCalls c + 1 \<and>
      failureCalls (fire c (Reply r)) = failureCalls c) \<and>
   (status r = Failed \<longrightarrow>
      asyncProgress (fire c (Reply r)) = 100 \<and> \<not> pollTimer (fire c (Reply r)) \<and>
      failureCalls (fire c (Reply r)) = failureCalls c + 1 \<and>
      completionCalls (fire c (Reply r)) = completionCalls c)"
  by (auto simp: status_update_def handleAsyncAgentCompletion_def handleAsyncAgentFailure_def
      cleanupAsyncIntervals_def Let_def split: option.splits)

lemma cleared_fire:
  "\<not> pollTimer c \<Longrightarrow> \<not> pollTimer (fire c e) \<and> pending (fire c e) \<le> pending c"
proof (cases e)
  case (Reply r)
  assume "\<not> pollTimer c"
  then show ?thesis unfolding Reply
    by (cases "status r")
      (auto simp: status_update_def handleAsyncAgentCompletion_def handleAsyncAgentFailure_def
        cleanupAsyncIntervals_def Let_def split: option.splits)
qed (auto simp: poll_tick_def progress_tick_def)

lemma cleared_run:
  "\<not> pollTimer c \<Longrightarrow> \<not> pollTimer (foldl fire c es) \<and> pending (foldl fire c es) \<le> pending c"
proof (induction es arbitrary: c)
  case Nil
  then show ?case by simp
next
  case (Cons e es)
  from cleared_fire [OF Cons.prems, of e] have 1: "\<not> pollTimer (fire c e)"
    and 2: "pending (fire c e) \<le> pending c" by simp_all
  from Cons.IH [OF 1] 2 show ?case by auto
qed

lemma settled_tick: "settled c \<Longrightarrow> pending c = 0 \<Longrightarrow> settled (poll_tick c)"
  by (auto simp: settled_def poll_tick_def handler_calls_def)

lemma settled_armed: "settled c \<Longrightarrow> 0 < pending c \<Longrightarrow> pollTimer c \<and> pending c = 1"
  by (auto simp: settled_def split: if_splits)

lemma settled_update:
  assumes "settled c" "0 < pending c"
  shows "settled (fire c (Reply r)) \<and> (pollTimer (fire c (Reply r)) \<longleftrightarrow> \<not> terminal (status r))"
  using settled_armed [OF assms] assms(1)
  by (cases "status r")
    (auto simp: settled_def status_update_def handler_calls_def handleAsyncAgentCompletion_def
      handleAsyncAgentFailure_def cleanupAsyncIntervals_def terminal_def Let_def
      split: option.splits)

lemma settled_error:
  assumes "settled c" "0 < pending c"
  shows "settled (fire c ReplyError) \<and> pollTimer (fire c ReplyError)"
  using settled_armed [OF assms] assms(1) by (auto simp: settled_def handler_calls_def)

lemma settled_progress:
  "settled c \<Longrightarrow> settled (progress_tick x c) \<and> pollTimer (progress_tick x c) = pollTimer c"
  by (auto simp: settled_def progress_tick_def handler_calls_def split: if_splits)

lemma serial_run:
  assumes "settled c" "serial c es"
  shows "settled (foldl fire c es) \<and>
         (\<not> pollTimer c \<or> (\<exists>r\<in>set (polled es). terminal (status r)) \<longrightarrow>
            \<not> pollTimer (foldl fire c es)) \<and>
         (pollTimer c \<and> \<not> (\<exists>r\<in>set (polled es). terminal (status r)) \<longrightarrow>
            pollTimer (foldl fire c es))"
  using assms
proof (induction es arbitrary: c)
  case Nil
  then show ?case by simp
next
  case (Cons e es)
  from Cons.prems(2) have s: "serial (fire c e) es" by simp
  show ?case
  proof (cases e)
    case Tick
    with Cons.prems(2) have p: "pending c = 0" by simp
    have t: "pollTimer (poll_tick c) = pollTimer c"
      using Cons.prems(1) by (auto simp: poll_tick_def settled_def)
    from Cons.IH [OF _ s] settled_tick [OF Cons.prems(1) p] t show ?thesis
      unfolding Tick by simp
  next
    case (Reply r)
    with Cons.prems(2) have p: "0 < pending c" by simp
    from settled_armed [OF Cons.prems(1) p] have a: "pollTimer c" by simp
    from settled_update [OF Cons.prems(1) p, of r]
    have 1: "settled (fire c (Reply r))"
      and 2: "pollTimer (fire c (Reply r)) \<longleftrightarrow> \<not> terminal (status r)" by simp_all
    from Cons.IH [OF 1] s a 2 show ?thesis unfolding Reply by auto
  next
    case ReplyError
    with Cons.prems(2) have p: "0 < pending c" by simp
    from settled_armed [OF Cons.prems(1) p] have a: "pollTimer c" by simp
    from settled_error [OF Cons.prems(1) p]
    have 1: "settled (fire c ReplyError)" and 2: "pollTimer (fire c ReplyError)" by simp_all
    from Cons.IH [OF 1] s a 2 show ?thesis unfolding ReplyError by auto
  next
    case (Progress x)
    from settled_progress [OF Cons.prems(1), of x]
    have 1: "settled (fire c (Progress x))"
      and 2: "pollTimer (fire c (Progress x)) = pollTimer c" by simp_all
    from Cons.IH [OF 1] s 2 show ?thesis unfolding Progress by auto
  qed
qed

lemma settled_monitoring: "settled (monitoring sid)"
  by (simp add: settled_def monitoring_def handler_calls_def)

text \<open>
  Claim C9, as stated, fails.  In the first run every status is \<open>Processing\<close>: five updates
  bring the estimate to 75, three simulated increments of 4 bring it to 87, and the next
  status update lowers it to 85.  In the second run two requests are in flight and the answer
  \<open>Pending\<close> arrives after the answer \<open>Processing\<close>: the estimate goes from 15 to 10.  In the
  third run two requests are in flight when the session completes: both answers say
  \<open>Completed\<close>, the callback runs for each of them, also after the interval has been
  cleared, and the completion handler is called twice.
\<close>

theorem progress_drops:
  \<open>feasible (monitoring ''s'')
     [Tick, Reply \<lparr>status = Processing, agentResponse = None\<rparr>,
      Tick, Reply \<lparr>status = Processing, agentResponse = None\<rparr>,
      Tick, Reply \<lparr>status = Processing, agentResponse = None\<rparr>,
      Tick, Reply \<lparr>status = Processing, agentResponse = None\<rparr>,
      Tick, Reply \<lparr>status = Processing, agentResponse = None\<rparr>,
      Progress 4, Progress 4, Progress 4,
      Tick, Reply \<lparr>status = Processing, agentResponse = None\<rparr>] \<and>
   progress_trace (monitoring ''s'')
     [Tick, Reply \<lparr>status = Processing, agentResponse = None\<rparr>,
      Tick, Reply \<lparr>status = Processing, agentResponse = None\<rparr>,
      Tick, Reply \<lparr>status = Processing, agentResponse = None\<rparr>,
      Tick, Reply \<lparr>status = Processing, agentResponse = None\<rparr>,
      Tick, Reply \<lparr>status = Processing, agentResponse = None\<rparr>,
      Progress 4, Progress 4, Progress 4,
      Tick, Reply \<lparr>status = Processing, agentResponse = None\<rparr>] =
     [0, 15, 15, 30, 30, 45, 45, 60, 60, 75, 79, 83, 87, 87, 85] \<and>
   feasible (monitoring ''s'')
     [Tick, Tick, Reply \<lparr>status = Processing, agentResponse = None\<rparr>,
      Reply \<lparr>status = Pending, agentResponse = None\<rparr>] \<and>
   poll_samples (monitoring ''s'')
     [Tick, Tick, Reply \<lparr>status = Processing, agentResponse = None\<rparr>,
      Reply \<lparr>status = Pending, agentResponse = None\<rparr>] = [15, 10] \<and>
   feasible (monitoring ''s'')
     [Tick, Tick, Reply \<lparr>status = Completed, agentResponse = None\<rparr>,
      Reply \<lparr>status = Completed, agentResponse = None\<rparr>] \<and>
   completionCalls (foldl fire (monitoring ''s'')
     [Tick, Tick, Reply \<lparr>status = Completed, agentResponse = None\<rparr>,
      Reply \<lparr>status = Completed, agentResponse = None\<rparr>]) = 2\<close>
  by (simp add: monitoring_def poll_tick_def progress_tick_def status_update_def
      handleAsyncAgentCompletion_def cleanupAsyncIntervals_def)

text \<open>
  Claim C9, amended.  When the statuses of the answers only move forward and each simulated
  increment is a number from 0 up to 5, the estimates taken right after each status update
  are non-decreasing.  Every status update \<open>Completed\<close>, respectively \<open>Failed\<close>, sets the
  estimate to 100, calls the completion, respectively the failure, handler once and clears
  the polling timer; once the timer is cleared it stays cleared and no further request is
  sent.  In a serial run from the start of monitoring, where a request is only sent when none
  is in flight: once a terminal status has been seen the estimate is 100, the polling timer is
  cleared and exactly one handler call has been made; before that the timer is armed and no
  handler has been called.
\<close>

theorem progress_samples_monotone:
  "(forward_only (polled es) \<and> list_all random_ok es \<longrightarrow>
      sorted (poll_samples (monitoring sid) es)) \<and>
   (status r = Completed \<longrightarrow>
      asyncProgress (fire c (Reply r)) = 100 \<and> \<not> pollTimer (fire c (Reply r)) \<and>
      completionCalls (fire c (Reply r)) = completionCalls c + 1 \<and>
      failureCalls (fire c (Reply r)) = failureCalls c) \<and>
   (status r' = Failed \<longrightarrow>
      asyncProgress (fire c (Reply r')) = 100 \<and> \<not> pollTimer (fire c (Reply r')) \<and>
      failureCalls (fire c (Reply r')) = failureCalls c + 1 \<and>
      completionCalls (fire c (Reply r')) = completionCalls c) \<and>
   (\<not> pollTimer c' \<longrightarrow>
      \<not> pollTimer (foldl fire c' es') \<and> pending (foldl fire c' es') \<le> pending c') \<and>
   (serial (monitoring sid) es \<and> (\<exists>r\<in>set (polled es). terminal (status r)) \<longrightarrow>
      asyncProgress (foldl fire (monitoring sid) es) = 100 \<and>
      \<not> pollTimer (foldl fire (monitoring sid) es) \<and>
      handler_calls (foldl fire (monitoring sid) es) = 1) \<and>
   (serial (monitoring sid) es \<and> \<not> (\<exists>r\<in>set (polled es). terminal (status r)) \<longrightarrow>
      pollTimer (foldl fire (monitoring sid) es) \<and>
      handler_calls (foldl fire (monitoring sid) es) = 0)"
proof -
  have 1: "sorted (poll_samples (monitoring sid) es)"
    if "forward_only (polled es)" "list_all random_ok es"
  proof -
    from that have "forward_from 0 (polled es)" by (simp add: forward_from_def)
    from samples_sorted [OF tracking_monitoring this that(2)] show ?thesis by simp
  qed
  have m: "pollTimer (monitoring sid)" by (simp add: monitoring_def)
  have 5: "asyncProgress (foldl fire (monitoring sid) es) = 100 \<and>
      \<not> pollTimer (foldl fire (monitoring sid) es) \<and>
      handler_calls (foldl fire (monitoring sid) es) = 1"
    if "serial (monitoring sid) es" "\<exists>r\<in>set (polled es). terminal (status r)"
    using serial_run [OF settled_monitoring that(1)] that(2)
    by (auto simp: settled_def split: if_splits)
  have 6: "pollTimer (foldl fire (monitoring sid) es) \<and>
      handler_calls (foldl fire (monitoring sid) es) = 0"
    if "serial (monitoring sid) es" "\<not> (\<exists>r\<in>set (polled es). terminal (status r))"
    using serial_run [OF settled_monitoring that(1)] that(2) m
    by (auto simp: settled_def split: if_splits)
  from 1 terminal_update [of r c] terminal_update [of r' c] cleared_run [of c' es'] 5 6
  show ?thesis by blast
qed

theorem progress_samples_monotone_witness:
  \<open>forward_only (polled
     [Tick, Reply \<lparr>status = Pending, agentResponse = None\<rparr>, Progress 4,
      Tick, Reply \<lparr>status = Processing, agentResponse = None\<rparr>, Progress 3,
      Tick, Reply \<lparr>status = Completed, agentResponse = None\<rparr>, Tick, Progress 2]) \<and>
   list_all random_ok
     [Tick, Reply \<lparr>status = Pending, agentResponse = None\<rparr>, Progress 4,
      Tick, Reply \<lparr>status = Processing, agentResponse = None\<rparr>, Progress 3,
      Tick, Reply \<lparr>status = Completed, agentResponse = None\<rparr>, Tick, Progress 2] \<and>
   serial (monitoring ''s'')
     [Tick, Reply \<lparr>status = Pending, agentResponse = None\<rparr>, Progress 4,
      Tick, Reply \<lparr>status = Processing, agentResponse = None\<rparr>, Progress 3,
      Tick, Reply \<lparr>status = Completed, agentResponse = None\<rparr>, Tick, Progress 2] \<and>
   sorted (poll_samples (monitoring ''s'')
     [Tick, Reply \<lparr>status = Pending, agentResponse = None\<rparr>, Progress 4,
      Tick, Reply \<lparr>status = Processing, agentResponse = None\<rparr>, Progress 3,
      Tick, Reply \<lparr>status = Completed, agentResponse = None\<rparr>, Tick, Progress 2]) \<and>
   completionCalls (fire (poll_tick (monitoring ''s''))
     (Reply \<lparr>status = Completed, agentResponse = None\<rparr>)) = 1 \<and>
   failureCalls (fire (poll_tick (monitoring ''s''))
     (Reply \<lparr>status = Failed, agentResponse = None\<rparr>)) = 1 \<and>
   \<not> pollTimer (fire (poll_tick (monitoring ''s''))
     (Reply \<lparr>status = Completed, agentResponse = None\<rparr>)) \<and>
   pending (foldl fire (fire (poll_tick (monitoring ''s''))
     (Reply \<lparr>status = Completed, agentResponse = None\<rparr>)) [Tick, Tick]) = 0 \<and>
   handler_calls (foldl fire (monitoring ''s'')
     [Tick, Reply \<lparr>status = Pending, agentResponse = None\<rparr>, Progress 4,
      Tick, Reply \<lparr>status = Processing, agentResponse = None\<rparr>, Progress 3,
      Tick, Reply \<lparr>status = Completed, agentResponse = None\<rparr>, Tick, Progress 2]) = 1\<close>
proof -
  let ?es = \<open>[Tick, Reply \<lparr>status = Pending, agentResponse = None\<rparr>, Progress 4,
      Tick, Reply \<lparr>status = Processing, agentResponse = None\<rparr>, Progress 3,
      Tick, Reply \<lparr>status = Completed, agentResponse = None\<rparr>, Tick, Progress 2]\<close>
  let ?c = "poll_tick (monitoring ''s'')"
  let ?d = \<open>fire ?c (Reply \<lparr>status = Completed, agentResponse = None\<rparr>)\<close>
  have h1: "forward_only (polled ?es) \<and> list_all random_ok ?es"
    by simp
  have h2: "status \<lparr>status = Completed, agentResponse = None\<rparr> = Completed"
    "status \<lparr>status = Failed, agentResponse = None\<rparr> = Failed"
    by simp_all
  have h3: "\<not> pollTimer ?d"
    by (simp add: monitoring_def poll_tick_def status_update_def handleAsyncAgentCompletion_def
        cleanupAsyncIntervals_def)
  have h4: "serial (monitoring ''s'') ?es"
    by (simp add: monitoring_def poll_tick_def progress_tick_def status_update_def
        handleAsyncAgentCompletion_def cleanupAsyncIntervals_def)
  have h5: "\<exists>r\<in>set (polled ?es). terminal (status r)"
    by (simp add: terminal_def)
  have h6: "completionCalls ?c = 0" "failureCalls ?c = 0" "pending ?d = 0"
    by (simp_all add: monitoring_def poll_tick_def status_update_def
        handleAsyncAgentCompletion_def cleanupAsyncIntervals_def)
  from h1 h2 h3 h4 h5 h6
    progress_samples_monotone [of ?es "''s''" "\<lparr>status = Completed, agentResponse = None\<rparr>" ?c
      "\<lparr>status = Failed, agentResponse = None\<rparr>" ?d "[Tick, Tick]"]
  show ?thesis by simp
qed

section \<open>Backslashes in the scan\<close>

lemma set_trim: "set (trim s) \<subseteq> set s"
proof -
  have "set (trim s) \<subseteq> set (rev (dropWhile js_space s))"
    unfolding trim_def set_rev using set_dropWhileD by fastforce
  also have "\<dots> \<subseteq> set s"
    unfolding set_rev using set_dropWhileD by fastforce
  finally show ?thesis .
qed

lemma no_backslash_brace:
  assumes "no_backslash st" "c \<noteq> CHR 0x5C"
  shows "no_backslash (scan_brace c st)"
  using assms set_trim [of "currentObject st @ [c]"]
  by (auto simp: no_backslash_def scan_brace_def)

lemma no_backslash_step:
  assumes "no_backslash st"
  shows "no_backslash (scan_step st c)"
proof (cases "escapeNext st \<or> c = CHR 0x5C")
  case True
  with assms show ?thesis by (auto simp: scan_step_def no_backslash_def)
next
  case False
  then have c: "c \<noteq> CHR 0x5C" and e: "\<not> escapeNext st" by auto
  let ?st1 = "if c = CHR 0x22 then st\<lparr>inString := \<not> inString st\<rparr> else st"
  have 1: "no_backslash ?st1" using assms by (simp add: no_backslash_def)
  let ?st2 = "if \<not> inString ?st1 then scan_brace c ?st1 else ?st1"
  have 2: "no_backslash ?st2" using 1 no_backslash_brace [OF 1 c] by simp
  have "scan_step st c =
          (if braceCount ?st2 > 0 then ?st2\<lparr>currentObject := currentObject ?st2 @ [c]\<rparr> else ?st2)"
    using c e by (simp add: scan_step_def Let_def)
  with 2 c show ?thesis by (simp add: no_backslash_def)
qed

lemma no_backslash_foldl: "no_backslash st \<Longrightarrow> no_backslash (foldl scan_step st cs)"
  by (induction cs arbitrary: st) (simp_all add: no_backslash_step)

lemma scan_objects_no_backslash: "obj \<in> set (scan_objects cs) \<Longrightarrow> CHR 0x5C \<notin> set obj"
  using no_backslash_foldl [of scan_init cs]
  by (simp add: scan_objects_def no_backslash_def scan_init_def)

lemma escape_pair:
  assumes "\<not> escapeNext st"
  shows "scan_step (scan_step st (CHR 0x5C)) d = st"
  using assms by (cases st) (simp add: scan_step_def)

lemma step_not_escape:
  assumes "\<not> escapeNext st" "c \<noteq> CHR 0x5C"
  shows "\<not> escapeNext (scan_step st c)"
  using assms by (simp add: scan_step_def scan_brace_def Let_def)

lemma scan_drop_escapes:
  "\<not> escapeNext st \<Longrightarrow>
   sessionObjects (foldl scan_step st cs) = sessionObjects (foldl scan_step st (drop_escapes cs))"
proof (induction cs arbitrary: st rule: drop_escapes.induct)
  case (1 c d cs)
  show ?case
  proof (cases "c = CHR 0x5C")
    case True
    with 1 show ?thesis by (simp add: escape_pair)
  next
    case False
    with 1 step_not_escape [of st c] show ?thesis by simp
  qed
next
  case (2 c)
  then show ?case by (simp add: scan_step_def)
next
  case 3
  then show ?case by simp
qed

text \<open>
  Claim C10, as stated, fails.  The first record below is complete and its name holds an
  escaped quote.  It is not omitted: the schedule recovered from the payload holds it, under
  the name \<open>AB\<close>.
\<close>

theorem escaped_record_kept:
  \<open>schedule (extractPartialScheduleData no_dates
     (''[{"sessionName":"A'' @ [CHR 0x5C] @ ''"B","location":"R"},{"sessionName":"C"'')) =
   [default_slot (JStr ''AB'') (JStr ''R'')]\<close>
  by code_simp

text \<open>
  Claim C10, amended.  No candidate of the brace-matching scan holds a backslash, and the scan
  finds in a payload the candidates it finds in the payload without its backslashes and the
  characters they escape.  A candidate of a record with such escapes is the text of the record
  without them; it can still parse, and the record is then kept with the escapes missing from
  its values, as the record \<open>A\"B\<close> of the payload below is kept as \<open>AB\<close>.
\<close>

theorem scan_ignores_escapes:
  \<open>(obj \<in> set (scan_objects cs) \<longrightarrow> CHR 0x5C \<notin> set obj) \<and>
   scan_objects cs = scan_objects (drop_escapes cs) \<and>
   scan_objects (''[{"sessionName":"A'' @ [CHR 0x5C] @ ''"B","location":"R"},{"sessionName":"C"'') =
     [''{"sessionName":"AB","location":"R"}''] \<and>
   schedule (extractPartialScheduleData dp
     (''[{"sessionName":"A'' @ [CHR 0x5C] @ ''"B","location":"R"},{"sessionName":"C"'')) =
   [default_slot (JStr ''AB'') (JStr ''R'')]\<close>
proof -
  have \<open>schedule (extractPartialScheduleData dp
     (''[{"sessionName":"A'' @ [CHR 0x5C] @ ''"B","location":"R"},{"sessionName":"C"'')) =
   [default_slot (JStr ''AB'') (JStr ''R'')]\<close>
    by code_simp
  moreover have \<open>scan_objects (''[{"sessionName":"A'' @ [CHR 0x5C] @ ''"B","location":"R"},{"sessionName":"C"'') =
     [''{"sessionName":"AB","location":"R"}'']\<close>
    by code_simp
  moreover have "scan_objects cs = scan_objects (drop_escapes cs)"
    unfolding scan_objects_def by (rule scan_drop_escapes) (simp add: scan_init_def)
  ultimately show ?thesis using scan_objects_no_backslash by blast
qed

theorem scan_ignores_escapes_witness:
  \<open>''{"sessionName":"AB","location":"R"}'' \<in> set (scan_objects
      (''[{"sessionName":"A'' @ [CHR 0x5C] @ ''"B","location":"R"},{"sessionName":"C"'')) \<and>
   CHR 0x5C \<notin> set ''{"sessionName":"AB","location":"R"}''\<close>
proof -
  have h: \<open>''{"sessionName":"AB","location":"R"}'' \<in> set (scan_objects
      (''[{"sessionName":"A'' @ [CHR 0x5C] @ ''"B","location":"R"},{"sessionName":"C"''))\<close>
    by code_simp
  from h scan_ignores_escapes [of \<open>''{"sessionName":"AB","location":"R"}''\<close>
      \<open>(''[{"sessionName":"A'' @ [CHR 0x5C] @ ''"B","location":"R"},{"sessionName":"C"'')\<close>]
  show ?thesis by blast
qed

end
